theory Spec2Isabelle
  imports Complex_Main
begin

section \<open>JavaScript values\<close>

text \<open>
  Objects are referred to by address; \<open>===\<close> on objects is equality of addresses.
\<close>

type_synonym ref = nat

text \<open>
  A JavaScript Number. Finite doubles are read as the real number they denote; no
  arithmetic is done on them here, they are only stored and tested for truthiness.
\<close>

datatype number = Finite real | NaN | PosInfinity | NegInfinity

datatype jsvalue =
    JUndefined
  | JNull
  | JBool bool
  | JNumber number
  | JString string
  | JObject ref

text \<open>ToBoolean, as used by \<^verbatim>\<open>if (value)\<close> and \<^verbatim>\<open>if (node.internal_static)\<close>.\<close>

fun truthy :: "jsvalue \<Rightarrow> bool" where
  "truthy JUndefined = False"
| "truthy JNull = False"
| "truthy (JBool b) = b"
| "truthy (JNumber (Finite x)) = (x \<noteq> 0)"
| "truthy (JNumber NaN) = False"
| "truthy (JNumber PosInfinity) = True"
| "truthy (JNumber NegInfinity) = True"
| "truthy (JString s) = (s \<noteq> [])"
| "truthy (JObject r) = True"

text \<open>
  What a style object holds under a property: a value stored as it was given, or the
  Number that unary plus made of a string. \<open>NumberOf s\<close> stands for the Number
  \<^verbatim>\<open>+s\<close> where this development does not evaluate it (\<open>s\<close> is not a plain run of
  digits, or denotes an integer above \<open>2^53\<close> that a double cannot hold exactly).
\<close>

datatype stored = Value jsvalue | NumberOf string

type_synonym styles = "string \<rightharpoonup> stored"

definition is_digit :: "char \<Rightarrow> bool" where
  "is_digit c = (48 \<le> (of_char c :: nat) \<and> (of_char c :: nat) \<le> 57)"

definition digits_value :: "string \<Rightarrow> nat" where
  "digits_value s = foldl (\<lambda>acc c. 10 * acc + ((of_char c :: nat) - 48)) 0 s"

text \<open>\<^verbatim>\<open>/^\d+px/.test(value)\<close>: one or more digits at the start, then \<^verbatim>\<open>px\<close>; no end anchor.\<close>

definition test_digits_px :: "string \<Rightarrow> bool" where
  "test_digits_px v = (takeWhile is_digit v \<noteq> [] \<and> take 2 (dropWhile is_digit v) = ''px'')"

text \<open>\<^verbatim>\<open>value.replace(pat, rep)\<close> with a string pattern: the first occurrence only.\<close>

fun replace_first :: "string \<Rightarrow> string \<Rightarrow> string \<Rightarrow> string" where
  "replace_first pat rep [] = (if pat = [] then rep else [])"
| "replace_first pat rep (c # cs) =
     (if take (length pat) (c # cs) = pat then rep @ drop (length pat) (c # cs)
      else c # replace_first pat rep cs)"

text \<open>Unary plus on a string (\<^verbatim>\<open>+value.replace('px', '')\<close>).\<close>

definition unary_plus :: "string \<Rightarrow> stored" where
  "unary_plus s =
     (if s \<noteq> [] \<and> list_all is_digit s \<and> digits_value s \<le> 2 ^ 53
      then Value (JNumber (Finite (of_nat (digits_value s))))
      else NumberOf s)"

section \<open>The target tree\<close>

text \<open>
  A node of \<^verbatim>\<open>dom.js\<close> with the fields \<^verbatim>\<open>preact.ts\<close> reads and writes. \<open>staticNode\<close>
  is the slot of the root element; \<open>yogaNode\<close> is the layout handle. A \<^verbatim>\<open>#text\<close> node
  has no children (\<^verbatim>\<open>node.childNodes ?? []\<close>).
\<close>

record DOMNode =
  nodeName :: string
  parentNode :: "ref option"
  childNodes :: "ref list"
  yogaNode :: "ref option"
  style :: jsvalue
  attributes :: "string \<rightharpoonup> jsvalue"
  nodeValue :: string
  internal_transform :: jsvalue
  internal_static :: jsvalue
  staticNode :: "ref option"

type_synonym heap = "ref \<rightharpoonup> DOMNode"

definition TEXT_NODE :: nat where "TEXT_NODE = 1"
definition BOX_NODE :: nat where "BOX_NODE = 3"
definition ROOT_NODE :: nat where "ROOT_NODE = 4"

definition nodeTypes :: "string \<rightharpoonup> nat" where
  "nodeTypes =
     [''ink-text'' \<mapsto> TEXT_NODE, ''ink-box'' \<mapsto> BOX_NODE,
      ''ink-root'' \<mapsto> ROOT_NODE, ''#text'' \<mapsto> TEXT_NODE]"

definition isContainer :: "DOMNode \<Rightarrow> bool" where
  "isContainer nd =
     (nodeName nd = ''ink-root'' \<or> nodeName nd = ''ink-box'' \<or> nodeName nd = ''ink-text'')"

subsection \<open>Recursive searches\<close>

text \<open>
  The searches follow child pointers, so on a cyclic heap the source does not return.
  They take fuel, one unit per level of nesting; \<open>None\<close> is "no result within the fuel"
  (also for a pointer to no node, which JavaScript cannot hold).
\<close>

fun searchStatic :: "nat \<Rightarrow> heap \<Rightarrow> ref \<Rightarrow> ref option option"
  and searchStatic_children :: "nat \<Rightarrow> heap \<Rightarrow> ref list \<Rightarrow> ref option option" where
  "searchStatic 0 h n = None"
| "searchStatic (Suc k) h n =
     (case h n of
        None \<Rightarrow> None
      | Some nd \<Rightarrow>
          if truthy (internal_static nd) then Some (Some n)
          else if nodeName nd = ''ink-root'' \<or> nodeName nd = ''ink-box''
          then searchStatic_children k h (childNodes nd)
          else Some None)"
| "searchStatic_children k h [] = Some None"
| "searchStatic_children k h (child # rest) =
     (case searchStatic k h child of
        None \<Rightarrow> None
      | Some (Some found) \<Rightarrow> Some (Some found)
      | Some None \<Rightarrow> searchStatic_children k h rest)"

text \<open>The local function \<^verbatim>\<open>search\<close> of \<^verbatim>\<open>contains\<close>.\<close>

fun search :: "nat \<Rightarrow> heap \<Rightarrow> ref \<Rightarrow> ref \<Rightarrow> bool option"
  and search_children :: "nat \<Rightarrow> heap \<Rightarrow> ref \<Rightarrow> ref list \<Rightarrow> bool option" where
  "search 0 h otherNode n = None"
| "search (Suc k) h otherNode n =
     (if n = otherNode then Some True
      else case h n of
        None \<Rightarrow> None
      | Some nd \<Rightarrow> search_children k h otherNode (childNodes nd))"
| "search_children k h otherNode [] = Some False"
| "search_children k h otherNode (child # rest) =
     (case search k h otherNode child of
        None \<Rightarrow> None
      | Some True \<Rightarrow> Some True
      | Some False \<Rightarrow> search_children k h otherNode rest)"

subsection \<open>Well-formed subtrees, reachability, visiting order\<close>

text \<open>
  \<open>tree_ok k h n\<close>: below \<open>n\<close> every child pointer leads to a node and the nesting is less
  than \<open>k\<close> deep, so in particular no node is its own descendant.
\<close>

fun tree_ok :: "nat \<Rightarrow> heap \<Rightarrow> ref \<Rightarrow> bool" where
  "tree_ok 0 h n = False"
| "tree_ok (Suc k) h n =
     (case h n of
        None \<Rightarrow> False
      | Some nd \<Rightarrow> list_all (tree_ok k h) (childNodes nd))"

text \<open>\<open>reach h n\<close>: \<open>n\<close> itself and everything reachable from it along child pointers.\<close>

inductive_set reach :: "heap \<Rightarrow> ref \<Rightarrow> ref set" for h :: heap and n :: ref where
  self: "n \<in> reach h n"
| child: "m \<in> reach h n \<Longrightarrow> h m = Some nd \<Longrightarrow> c \<in> set (childNodes nd) \<Longrightarrow> c \<in> reach h n"

text \<open>
  The order in which a pre-order walk visits the nodes when it goes below
  \<^verbatim>\<open>ink-root\<close> and \<^verbatim>\<open>ink-box\<close> nodes only.
\<close>

fun visit_order :: "nat \<Rightarrow> heap \<Rightarrow> ref \<Rightarrow> ref list"
  and visit_order_children :: "nat \<Rightarrow> heap \<Rightarrow> ref list \<Rightarrow> ref list" where
  "visit_order 0 h n = []"
| "visit_order (Suc k) h n =
     (case h n of
        None \<Rightarrow> []
      | Some nd \<Rightarrow>
          n # (if nodeName nd = ''ink-root'' \<or> nodeName nd = ''ink-box''
               then visit_order_children k h (childNodes nd) else []))"
| "visit_order_children k h [] = []"
| "visit_order_children k h (child # rest) = visit_order k h child @ visit_order_children k h rest"

definition is_static :: "heap \<Rightarrow> ref \<Rightarrow> bool" where
  "is_static h n = (case h n of None \<Rightarrow> False | Some nd \<Rightarrow> truthy (internal_static nd))"

section \<open>Adapters, sessions and the scheduler\<close>

text \<open>
  \<open>PreactElement\<close>: \<open>style_proxy\<close> is the field \<^verbatim>\<open>_style\<close>, holding the style object
  that the cached Proxy wraps (\<open>None\<close> for \<^verbatim>\<open>null\<close>).
\<close>

record PreactElement =
  node :: ref
  nodeType :: "nat option"
  style_proxy :: "ref option"

text \<open>
  Modelled from the spec: the class \<^verbatim>\<open>Ink\<close> of \<^verbatim>\<open>ink.js\<close> is not part of the source
  at hand. A session owns exactly one root node; its \<^verbatim>\<open>calculateLayout\<close> and
  \<^verbatim>\<open>onRender\<close> are recorded as events.
\<close>

record Ink =
  rootNode :: ref

datatype event =
    CalculateLayout ref
  | OnRender ref
  | ApplyStyle ref styles
  | FreeHandle ref

datatype error = NotAContainer | NotImplemented | TypeError | NoSuchObject | OutOfFuel

text \<open>
  The whole state. \<open>static_scheduleOutput\<close> is \<^verbatim>\<open>PreactElement.scheduleOutput\<close>:
  \<open>None\<close> is the empty function it starts as, \<open>Some (c, i)\<close> the closure that the
  render call \<open>c\<close> made over its own variable \<^verbatim>\<open>flush\<close> and the session \<open>i\<close>.
  \<open>flush c\<close> tells whether that variable holds a timeout. \<open>timers\<close> are the callbacks
  given to \<^verbatim>\<open>setTimeout\<close> that have not run yet, oldest first. \<open>static_root\<close> is
  \<^verbatim>\<open>PreactElement.root\<close>. \<open>instances\<close> is the registry of \<^verbatim>\<open>instances.js\<close>, which is
  not part of the source at hand: a map from output stream to session, as the spec has
  it. \<open>trace\<close> records the calls into the session and the layout engine. \<open>requests\<close> counts the calls of \<^verbatim>\<open>PreactElement.scheduleOutput\<close>; it
  is bookkeeping for the statements below and nothing reads it.
\<close>

record world =
  nodes :: heap
  objects :: "ref \<rightharpoonup> styles"
  elements :: "ref \<rightharpoonup> PreactElement"
  domNode2PreactElement :: "ref \<rightharpoonup> ref"
  inks :: "ref \<rightharpoonup> Ink"
  instances :: "ref \<rightharpoonup> ref"
  static_scheduleOutput :: "(ref \<times> ref) option"
  static_root :: "ref option"
  flush :: "ref \<Rightarrow> bool"
  timers :: "(ref \<times> ref) list"
  trace :: "event list"
  requests :: nat
  fresh :: ref

definition init :: world where
  "init = \<lparr>nodes = Map.empty, objects = Map.empty, elements = Map.empty,
     domNode2PreactElement = Map.empty, inks = Map.empty, instances = Map.empty,
     static_scheduleOutput = None, static_root = None, flush = (\<lambda>c. False),
     timers = [], trace = [], requests = 0, fresh = 0\<rparr>"

subsection \<open>The output scheduler\<close>

text \<open>
  A call of \<^verbatim>\<open>PreactElement.scheduleOutput()\<close>: the closure bound by \<^verbatim>\<open>render\<close> sets
  a timeout unless its \<^verbatim>\<open>flush\<close> already holds one.
\<close>

definition scheduleOutput :: "world \<Rightarrow> world" where
  "scheduleOutput s =
     (case static_scheduleOutput s of
        None \<Rightarrow> s\<lparr>requests := requests s + 1\<rparr>
      | Some (c, i) \<Rightarrow>
          if flush s c then s\<lparr>requests := requests s + 1\<rparr>
          else s\<lparr>flush := (flush s)(c := True), timers := timers s @ [(c, i)],
                 requests := requests s + 1\<rparr>)"

text \<open>
  The event loop runs the oldest pending timeout callback:
  \<^verbatim>\<open>instance.calculateLayout(); instance.onRender(); flush = null\<close>.
\<close>

definition run_timeout :: "world \<Rightarrow> world" where
  "run_timeout s =
     (case timers s of
        [] \<Rightarrow> s
      | (c, i) # rest \<Rightarrow>
          s\<lparr>timers := rest, trace := trace s @ [CalculateLayout i, OnRender i],
            flush := (flush s)(c := False)\<rparr>)"

subsection \<open>The primitives of the target tree\<close>

definition upd_node :: "ref \<Rightarrow> (DOMNode \<Rightarrow> DOMNode) \<Rightarrow> world \<Rightarrow> world" where
  "upd_node n f s =
     (case nodes s n of None \<Rightarrow> s | Some nd \<Rightarrow> s\<lparr>nodes := (nodes s)(n \<mapsto> f nd)\<rparr>)"

text \<open>
  Modelled from the spec: \<^verbatim>\<open>dom.js\<close> is not part of the source at hand. Its
  \<^verbatim>\<open>setStyle\<close>, \<^verbatim>\<open>setAttribute\<close> and \<^verbatim>\<open>setTextNodeValue\<close> store the style mapping, one
  attribute and the text of a node.
\<close>

definition dom_setStyle :: "ref \<Rightarrow> jsvalue \<Rightarrow> world \<Rightarrow> world" where
  "dom_setStyle n v = upd_node n (\<lambda>nd. nd\<lparr>style := v\<rparr>)"

definition dom_setAttribute :: "ref \<Rightarrow> string \<Rightarrow> jsvalue \<Rightarrow> world \<Rightarrow> world" where
  "dom_setAttribute n key v = upd_node n (\<lambda>nd. nd\<lparr>attributes := (attributes nd)(key \<mapsto> v)\<rparr>)"

definition dom_setTextNodeValue :: "ref \<Rightarrow> string \<Rightarrow> world \<Rightarrow> world" where
  "dom_setTextNodeValue n text = upd_node n (\<lambda>nd. nd\<lparr>nodeValue := text\<rparr>)"

text \<open>
  Modelled from the spec: \<^verbatim>\<open>removeChildNode\<close> detaches the node from the children of
  its parent; \<^verbatim>\<open>appendChildNode\<close> moves the node into the child list at the end;
  \<^verbatim>\<open>insertBeforeNode\<close> positions it before the reference node, or at the end if the
  reference is unset (or is not a child).
\<close>

definition dom_removeChildNode :: "ref \<Rightarrow> ref \<Rightarrow> world \<Rightarrow> world" where
  "dom_removeChildNode p c s =
     upd_node p (\<lambda>nd. nd\<lparr>childNodes := remove1 c (childNodes nd)\<rparr>)
       (upd_node c (\<lambda>nd. nd\<lparr>parentNode := None\<rparr>) s)"

definition detach :: "ref \<Rightarrow> world \<Rightarrow> world" where
  "detach c s =
     (case nodes s c of
        None \<Rightarrow> s
      | Some nd \<Rightarrow> (case parentNode nd of None \<Rightarrow> s | Some q \<Rightarrow> dom_removeChildNode q c s))"

definition dom_appendChildNode :: "ref \<Rightarrow> ref \<Rightarrow> world \<Rightarrow> world" where
  "dom_appendChildNode p c s =
     upd_node p (\<lambda>nd. nd\<lparr>childNodes := childNodes nd @ [c]\<rparr>)
       (upd_node c (\<lambda>nd. nd\<lparr>parentNode := Some p\<rparr>) (detach c s))"

fun insert_before :: "ref \<Rightarrow> ref \<Rightarrow> ref list \<Rightarrow> ref list" where
  "insert_before c r [] = [c]"
| "insert_before c r (x # xs) = (if x = r then c # x # xs else x # insert_before c r xs)"

definition dom_insertBeforeNode :: "ref \<Rightarrow> ref \<Rightarrow> ref option \<Rightarrow> world \<Rightarrow> world" where
  "dom_insertBeforeNode p c refNode s =
     upd_node p (\<lambda>nd. nd\<lparr>childNodes :=
         (case refNode of None \<Rightarrow> childNodes nd @ [c] | Some r \<Rightarrow> insert_before c r (childNodes nd))\<rparr>)
       (upd_node c (\<lambda>nd. nd\<lparr>parentNode := Some p\<rparr>) (detach c s))"

text \<open>
  Modelled from the spec: \<^verbatim>\<open>createTextNode\<close> and \<^verbatim>\<open>createNode\<close> of \<^verbatim>\<open>dom.js\<close> make a
  node of the given kind with no parent, no children, no attributes and an empty
  style object. The layout handle is present only once the node has been placed under
  a layout-bearing ancestor, so a new node has none.
\<close>

definition new_node :: "string \<Rightarrow> string \<Rightarrow> world \<Rightarrow> ref \<times> world" where
  "new_node name text s =
     (let n = fresh s; ob = fresh s + 1 in
      (n, s\<lparr>nodes := (nodes s)(n \<mapsto>
              \<lparr>nodeName = name, parentNode = None, childNodes = [], yogaNode = None,
               style = JObject ob, attributes = Map.empty, nodeValue = text,
               internal_transform = JUndefined, internal_static = JUndefined,
               staticNode = None\<rparr>),
            objects := (objects s)(ob \<mapsto> Map.empty),
            fresh := fresh s + 2\<rparr>))"

definition dom_createTextNode :: "string \<Rightarrow> world \<Rightarrow> ref \<times> world" where
  "dom_createTextNode text s = new_node ''#text'' text s"

definition dom_createNode :: "string \<Rightarrow> world \<Rightarrow> ref \<times> world" where
  "dom_createNode name s = new_node name [] s"

text \<open>
  Modelled from the spec: the layout handle of a node is optional, and it is the target
  tree and the layout engine (\<^verbatim>\<open>dom.js\<close>, not part of the source at hand) that attach
  and detach it. \<open>set_handle n y\<close> is such a step on the node \<open>n\<close>.
\<close>

definition set_handle :: "ref \<Rightarrow> ref option \<Rightarrow> world \<Rightarrow> world" where
  "set_handle n y s = upd_node n (\<lambda>nd. nd\<lparr>yogaNode := y\<rparr>) s"

text \<open>
  Modelled from the spec: \<^verbatim>\<open>freeRecursive\<close> of the layout engine releases every handle
  under the subtree, the handles of the children before the handle of the node. The
  result lists the handles in the order of their release.
\<close>

fun freeRecursive :: "nat \<Rightarrow> heap \<Rightarrow> ref \<Rightarrow> ref list option"
  and freeRecursive_children :: "nat \<Rightarrow> heap \<Rightarrow> ref list \<Rightarrow> ref list option" where
  "freeRecursive 0 h n = None"
| "freeRecursive (Suc k) h n =
     (case h n of
        None \<Rightarrow> None
      | Some nd \<Rightarrow>
          (case freeRecursive_children k h (childNodes nd) of
             None \<Rightarrow> None
           | Some hs \<Rightarrow> Some (hs @ (case yogaNode nd of None \<Rightarrow> [] | Some y \<Rightarrow> [y]))))"
| "freeRecursive_children k h [] = Some []"
| "freeRecursive_children k h (child # rest) =
     (case freeRecursive k h child of
        None \<Rightarrow> None
      | Some hs \<Rightarrow>
          (case freeRecursive_children k h rest of
             None \<Rightarrow> None
           | Some hs' \<Rightarrow> Some (hs @ hs')))"

subsection \<open>The document factories\<close>

text \<open>\<^verbatim>\<open>new PreactElement(node)\<close>: the constructor looks the node type up once.\<close>

definition new_PreactElement :: "ref \<Rightarrow> world \<Rightarrow> ref \<times> world" where
  "new_PreactElement n s =
     (let e = fresh s in
      (e, s\<lparr>elements := (elements s)(e \<mapsto>
              \<lparr>node = n,
               nodeType = (case nodes s n of None \<Rightarrow> None | Some nd \<Rightarrow> nodeTypes (nodeName nd)),
               style_proxy = None\<rparr>),
            fresh := fresh s + 1\<rparr>))"

definition createTextNode :: "string \<Rightarrow> world \<Rightarrow> ref \<times> world" where
  "createTextNode text s =
     (let (textNode, s1) = dom_createTextNode text s;
          (ele, s2) = new_PreactElement textNode s1
      in (ele, s2\<lparr>domNode2PreactElement := (domNode2PreactElement s2)(textNode \<mapsto> ele)\<rparr>))"

definition createElementNS :: "string \<Rightarrow> string \<Rightarrow> world \<Rightarrow> error + ref \<times> world" where
  "createElementNS namespaceURI qualifiedName s =
     (if take 4 qualifiedName = ''ink-''
      then (let (n, s1) = dom_createNode qualifiedName s;
                (ele, s2) = new_PreactElement n s1
            in Inr (ele, s2\<lparr>domNode2PreactElement := (domNode2PreactElement s2)(n \<mapsto> ele)\<rparr>))
      else Inl NotImplemented)"

subsection \<open>The operations of an adapter\<close>

text \<open>
  Every operation takes the address of its adapter first. A method that returns the
  adapter it was given returns the new state here. \<open>Inl\<close> is a throw; the state at the
  throw is not kept. \<open>NoSuchObject\<close> stands for an address that holds nothing, which
  JavaScript cannot produce, and \<open>OutOfFuel\<close> for a search cut short.
\<close>

definition wrapped :: "ref \<Rightarrow> world \<Rightarrow> (PreactElement \<times> DOMNode) option" where
  "wrapped e s =
     (case elements s e of
        None \<Rightarrow> None
      | Some el \<Rightarrow> (case nodes s (node el) of None \<Rightarrow> None | Some nd \<Rightarrow> Some (el, nd)))"

definition appendChild :: "ref \<Rightarrow> ref \<Rightarrow> world \<Rightarrow> error + world" where
  "appendChild e new s =
     (case wrapped e s of
        None \<Rightarrow> Inl NoSuchObject
      | Some (el, thisNode) \<Rightarrow>
          if isContainer thisNode
          then (case elements (scheduleOutput s) new of
                  None \<Rightarrow> Inl NoSuchObject
                | Some nel \<Rightarrow> Inr (dom_appendChildNode (node el) (node nel) (scheduleOutput s)))
          else Inl NotAContainer)"

definition insertBefore :: "ref \<Rightarrow> ref \<Rightarrow> ref option \<Rightarrow> world \<Rightarrow> error + world" where
  "insertBefore e new child s =
     (case wrapped e s of
        None \<Rightarrow> Inl NoSuchObject
      | Some (el, thisNode) \<Rightarrow>
          if isContainer thisNode
          then (case elements (scheduleOutput s) new of
                  None \<Rightarrow> Inl NoSuchObject
                | Some nel \<Rightarrow>
                    (case child of
                       None \<Rightarrow> Inr (dom_insertBeforeNode (node el) (node nel) None (scheduleOutput s))
                     | Some ce \<Rightarrow>
                         (case elements (scheduleOutput s) ce of
                            None \<Rightarrow> Inl NoSuchObject
                          | Some cel \<Rightarrow>
                              Inr (dom_insertBeforeNode (node el) (node nel) (Some (node cel))
                                     (scheduleOutput s)))))
          else Inl NotAContainer)"

text \<open>\<^verbatim>\<open>childNode.yogaNode?.freeRecursive()\<close>: nothing is released when the child has no handle.\<close>

definition release :: "nat \<Rightarrow> ref \<Rightarrow> world \<Rightarrow> error + world" where
  "release k c s =
     (case nodes s c of
        None \<Rightarrow> Inl NoSuchObject
      | Some cnd \<Rightarrow>
          (case yogaNode cnd of
             None \<Rightarrow> Inr s
           | Some y \<Rightarrow>
               (case freeRecursive k (nodes s) c of
                  None \<Rightarrow> Inl OutOfFuel
                | Some hs \<Rightarrow> Inr (s\<lparr>trace := trace s @ map FreeHandle hs\<rparr>))))"

definition removeChild :: "nat \<Rightarrow> ref \<Rightarrow> ref \<Rightarrow> world \<Rightarrow> error + world" where
  "removeChild k e child s =
     (case wrapped e s of
        None \<Rightarrow> Inl NoSuchObject
      | Some (el, thisNode) \<Rightarrow>
          if isContainer thisNode
          then (case elements s child of
                  None \<Rightarrow> Inl NoSuchObject
                | Some cel \<Rightarrow>
                    (case release k (node cel) (dom_removeChildNode (node el) (node cel) s) of
                       Inl err \<Rightarrow> Inl err
                     | Inr s1 \<Rightarrow> Inr (scheduleOutput s1)))
          else Inl NotAContainer)"

text \<open>\<^verbatim>\<open>contains(other)\<close>; \<open>other\<close> may be \<^verbatim>\<open>null\<close>, and reading \<^verbatim>\<open>null.node\<close> throws.\<close>

definition contains :: "nat \<Rightarrow> ref \<Rightarrow> ref option \<Rightarrow> world \<Rightarrow> error + bool" where
  "contains k e other s =
     (case wrapped e s of
        None \<Rightarrow> Inl NoSuchObject
      | Some (el, thisNode) \<Rightarrow>
          if isContainer thisNode
          then (case other of
                  None \<Rightarrow> Inl TypeError
                | Some oe \<Rightarrow>
                    (case elements s oe of
                       None \<Rightarrow> Inl NoSuchObject
                     | Some oel \<Rightarrow>
                         (case search k (nodes s) (node oel) (node el) of
                            None \<Rightarrow> Inl OutOfFuel
                          | Some b \<Rightarrow> Inr b)))
          else Inl NotAContainer)"

subsection \<open>The style interceptor\<close>

text \<open>\<^verbatim>\<open>Reflect.set(obj, prop, v)\<close> on a plain style object.\<close>

definition reflect_set :: "ref \<Rightarrow> string \<Rightarrow> stored \<Rightarrow> world \<Rightarrow> world" where
  "reflect_set ob prop v s =
     (case objects s ob of
        None \<Rightarrow> s
      | Some m \<Rightarrow> s\<lparr>objects := (objects s)(ob \<mapsto> m(prop \<mapsto> v))\<rparr>)"

text \<open>
  Modelled from the spec: \<^verbatim>\<open>applyStyle\<close> of \<^verbatim>\<open>styles.js\<close> is not part of the source at
  hand. It hands the style mapping to the layout engine; the call is recorded with the
  handle and the mapping as it is at that moment.
\<close>

definition applyStyle :: "ref \<Rightarrow> ref \<Rightarrow> world \<Rightarrow> world" where
  "applyStyle y ob s =
     s\<lparr>trace := trace s @ [ApplyStyle y (case objects s ob of None \<Rightarrow> Map.empty | Some m \<Rightarrow> m)]\<rparr>"

text \<open>\<^verbatim>\<open>if (node.yogaNode) { applyStyle(node.yogaNode, obj); PreactElement.scheduleOutput() }\<close>\<close>

definition forward :: "ref \<Rightarrow> ref \<Rightarrow> world \<Rightarrow> world" where
  "forward n ob s =
     (case nodes s n of
        None \<Rightarrow> s
      | Some nd \<Rightarrow>
          (case yogaNode nd of
             None \<Rightarrow> s
           | Some y \<Rightarrow> scheduleOutput (applyStyle y ob s)))"

text \<open>The \<^verbatim>\<open>set\<close> trap of the Proxy, for the node \<open>n\<close> and the wrapped style object \<open>ob\<close>.\<close>

definition proxy_set :: "ref \<Rightarrow> ref \<Rightarrow> string \<Rightarrow> jsvalue \<Rightarrow> world \<Rightarrow> world" where
  "proxy_set n ob prop v s =
     (case v of
        JString str \<Rightarrow>
          if test_digits_px str
          then forward n ob (reflect_set ob prop (unary_plus (replace_first ''px'' [] str)) s)
          else forward n ob (reflect_set ob prop (Value v) s)
      | _ \<Rightarrow> forward n ob (reflect_set ob prop (Value v) s))"

text \<open>
  The getter \<^verbatim>\<open>style\<close>: the cached Proxy, or a new one around \<^verbatim>\<open>node.style\<close>, which
  \<^verbatim>\<open>new Proxy\<close> accepts only if it is an object.
\<close>

definition get_style :: "ref \<Rightarrow> world \<Rightarrow> error + ref \<times> world" where
  "get_style e s =
     (case wrapped e s of
        None \<Rightarrow> Inl NoSuchObject
      | Some (el, nd) \<Rightarrow>
          (case style_proxy el of
             Some ob \<Rightarrow> Inr (ob, s)
           | None \<Rightarrow>
               (case style nd of
                  JObject ob \<Rightarrow> Inr (ob, s\<lparr>elements := (elements s)(e \<mapsto> el\<lparr>style_proxy := Some ob\<rparr>)\<rparr>)
                | _ \<Rightarrow> Inl TypeError)))"

text \<open>The assignment \<^verbatim>\<open>element.style[prop] = v\<close>.\<close>

definition style_assign :: "ref \<Rightarrow> string \<Rightarrow> jsvalue \<Rightarrow> world \<Rightarrow> error + world" where
  "style_assign e prop v s =
     (case get_style e s of
        Inl err \<Rightarrow> Inl err
      | Inr (ob, s1) \<Rightarrow>
          (case elements s1 e of
             None \<Rightarrow> Inl NoSuchObject
           | Some el \<Rightarrow> Inr (proxy_set (node el) ob prop v s1)))"

subsection \<open>Text, transform and attributes\<close>

text \<open>
  The setter \<^verbatim>\<open>data\<close>; its argument here is the string that \<^verbatim>\<open>String(data)\<close> yields.
\<close>

definition set_data :: "ref \<Rightarrow> string \<Rightarrow> world \<Rightarrow> error + world" where
  "set_data e text s =
     (case wrapped e s of
        None \<Rightarrow> Inl NoSuchObject
      | Some (el, nd) \<Rightarrow>
          if nodeName nd = ''#text''
          then Inr (scheduleOutput (dom_setTextNodeValue (node el) text s))
          else Inr s)"

definition set_internal_transform :: "ref \<Rightarrow> jsvalue \<Rightarrow> world \<Rightarrow> error + world" where
  "set_internal_transform e v s =
     (case elements s e of
        None \<Rightarrow> Inl NoSuchObject
      | Some el \<Rightarrow>
          Inr (scheduleOutput (upd_node (node el) (\<lambda>nd. nd\<lparr>internal_transform := v\<rparr>) s)))"

text \<open>The branch of \<^verbatim>\<open>setAttribute\<close> for the key \<^verbatim>\<open>internal_static\<close>.\<close>

definition set_static :: "nat \<Rightarrow> ref \<Rightarrow> jsvalue \<Rightarrow> world \<Rightarrow> error + world" where
  "set_static k n v s =
     (let s1 = upd_node n (\<lambda>nd. nd\<lparr>internal_static := v\<rparr>) s in
      case static_root s1 of
        None \<Rightarrow> Inl TypeError
      | Some r \<Rightarrow>
          if truthy v then Inr (upd_node r (\<lambda>nd. nd\<lparr>staticNode := Some n\<rparr>) s1)
          else (case searchStatic k (nodes s1) r of
                  None \<Rightarrow> Inl OutOfFuel
                | Some found \<Rightarrow> Inr (upd_node r (\<lambda>nd. nd\<lparr>staticNode := found\<rparr>) s1)))"

definition setAttribute :: "nat \<Rightarrow> ref \<Rightarrow> string \<Rightarrow> jsvalue \<Rightarrow> world \<Rightarrow> error + world" where
  "setAttribute k e key v s =
     (case elements s e of
        None \<Rightarrow> Inl NoSuchObject
      | Some el \<Rightarrow>
          (let s1 = (if key = ''style'' then dom_setStyle (node el) v s else s);
               s2 = (if key = ''internal_transform''
                     then upd_node (node el) (\<lambda>nd. nd\<lparr>internal_transform := v\<rparr>) s1 else s1)
           in case (if key = ''internal_static'' then set_static k (node el) v s2 else Inr s2) of
                Inl err \<Rightarrow> Inl err
              | Inr s3 \<Rightarrow> Inr (scheduleOutput (dom_setAttribute (node el) key v s3))))"

subsection \<open>Sequences of operations\<close>

text \<open>
  What the reconciler does to the adapters, one after the other without yielding.
  A throw ends the sequence.
\<close>

datatype op =
    CreateTextNode string
  | CreateElementNS string string
  | AppendChild ref ref
  | InsertBefore ref ref "ref option"
  | RemoveChild ref ref
  | SetAttribute ref string jsvalue
  | StyleAssign ref string jsvalue
  | SetData ref string
  | SetInternalTransform ref jsvalue

fun apply_op :: "nat \<Rightarrow> op \<Rightarrow> world \<Rightarrow> error + world" where
  "apply_op k (CreateTextNode text) s = Inr (snd (createTextNode text s))"
| "apply_op k (CreateElementNS ns name) s =
     (case createElementNS ns name s of Inl err \<Rightarrow> Inl err | Inr (ele, s1) \<Rightarrow> Inr s1)"
| "apply_op k (AppendChild e new) s = appendChild e new s"
| "apply_op k (InsertBefore e new child) s = insertBefore e new child s"
| "apply_op k (RemoveChild e child) s = removeChild k e child s"
| "apply_op k (SetAttribute e key v) s = setAttribute k e key v s"
| "apply_op k (StyleAssign e prop v) s = style_assign e prop v s"
| "apply_op k (SetData e text) s = set_data e text s"
| "apply_op k (SetInternalTransform e v) s = set_internal_transform e v s"

fun perform :: "nat \<Rightarrow> op list \<Rightarrow> world \<Rightarrow> error + world" where
  "perform k [] s = Inr s"
| "perform k (x # xs) s =
     (case apply_op k x s of Inl err \<Rightarrow> Inl err | Inr s1 \<Rightarrow> perform k xs s1)"

text \<open>The operations that change the tree, a style or a text: the mutations.\<close>

fun is_mutation :: "op \<Rightarrow> bool" where
  "is_mutation (CreateTextNode text) = False"
| "is_mutation (CreateElementNS ns name) = False"
| "is_mutation (SetInternalTransform e v) = False"
| "is_mutation x = True"

subsection \<open>The render entry point\<close>

text \<open>
  The second argument of \<^verbatim>\<open>render\<close>: nothing, an output stream, or an options object
  with or without the property \<^verbatim>\<open>stdout\<close>. \<open>getOptions\<close> gives the \<^verbatim>\<open>stdout\<close> property
  of the options it returns, the only one that \<^verbatim>\<open>render\<close> itself reads.
\<close>

datatype render_options = NoOptions | Stream ref | Options "ref option"

definition process_stdout :: ref where
  "process_stdout = 0"

fun getOptions :: "render_options \<Rightarrow> ref option" where
  "getOptions NoOptions = None"
| "getOptions (Stream st) = Some st"
| "getOptions (Options st) = st"

text \<open>
  \<^verbatim>\<open>inkOptions.stdout\<close>: \<^verbatim>\<open>process.stdout\<close> unless the options carry a stream.
\<close>

definition inkOptions_stdout :: "render_options \<Rightarrow> ref" where
  "inkOptions_stdout options = (case getOptions options of None \<Rightarrow> process_stdout | Some st \<Rightarrow> st)"

text \<open>
  Modelled from the spec: \<^verbatim>\<open>new Ink(inkOptions)\<close> of \<^verbatim>\<open>ink.js\<close> makes a session with a
  root node of its own.
\<close>

definition new_Ink :: "world \<Rightarrow> ref \<times> world" where
  "new_Ink s =
     (let (r, s1) = dom_createNode ''ink-root'' s; i = fresh s1
      in (i, s1\<lparr>inks := (inks s1)(i \<mapsto> \<lparr>rootNode = r\<rparr>), fresh := fresh s1 + 1\<rparr>))"

definition getInstance :: "ref \<Rightarrow> world \<Rightarrow> ref \<times> world" where
  "getInstance stdout s =
     (case instances s stdout of
        Some i \<Rightarrow> (i, s)
      | None \<Rightarrow> (let (i, s1) = new_Ink s in (i, s1\<lparr>instances := (instances s1)(stdout \<mapsto> i)\<rparr>)))"

text \<open>
  The control handle that \<^verbatim>\<open>render\<close> returns: each field names the session whose
  method it is; \<open>cleanup\<close> names the stream it removes from the registry.
\<close>

record Instance =
  rerender :: ref
  unmount :: ref
  waitUntilExit :: ref
  cleanup :: ref
  clear :: ref

text \<open>
  \<^verbatim>\<open>render(node, options)\<close>. The reconciler \<^verbatim>\<open>prender\<close> is not part of this program;
  \<open>reconcile\<close> is the sequence of operations it carries out for \<^verbatim>\<open>node\<close>, before
  \<^verbatim>\<open>render\<close> goes on.
\<close>

definition render :: "nat \<Rightarrow> op list \<Rightarrow> render_options \<Rightarrow> world \<Rightarrow> error + Instance \<times> world" where
  "render k reconcile options s =
     (let stdout = inkOptions_stdout options;
          (i, s1) = getInstance stdout s
      in case inks s1 i of
           None \<Rightarrow> Inl NoSuchObject
         | Some ink \<Rightarrow>
             (let c = fresh s1;
                  s2 = s1\<lparr>static_scheduleOutput := Some (c, i), flush := (flush s1)(c := False),
                         static_root := Some (rootNode ink), fresh := fresh s1 + 1\<rparr>;
                  (e, s3) = new_PreactElement (rootNode ink) s2
              in case perform k reconcile s3 of
                   Inl err \<Rightarrow> Inl err
                 | Inr s4 \<Rightarrow>
                     Inr (\<lparr>rerender = i, unmount = i, waitUntilExit = i, cleanup = stdout, clear = i\<rparr>,
                          scheduleOutput s4)))"

text \<open>
  The part of \<^verbatim>\<open>render\<close> that runs before the reconciler does: the session is looked up
  or made, the scheduler and the root slot are rebound, the root node is wrapped. The
  result is the control handle and the state in which the reconciler starts; \<^verbatim>\<open>render\<close>
  is this, then the operations of the reconciler, then a call of \<^verbatim>\<open>scheduleOutput\<close>
  (\<open>render_unfold\<close> below).
\<close>

definition render_begin :: "render_options \<Rightarrow> world \<Rightarrow> error + Instance \<times> world" where
  "render_begin options s =
     (let stdout = inkOptions_stdout options;
          (i, s1) = getInstance stdout s
      in case inks s1 i of
           None \<Rightarrow> Inl NoSuchObject
         | Some ink \<Rightarrow>
             (let c = fresh s1;
                  s2 = s1\<lparr>static_scheduleOutput := Some (c, i), flush := (flush s1)(c := False),
                         static_root := Some (rootNode ink), fresh := fresh s1 + 1\<rparr>;
                  (e, s3) = new_PreactElement (rootNode ink) s2
              in Inr (\<lparr>rerender = i, unmount = i, waitUntilExit = i, cleanup = stdout, clear = i\<rparr>, s3)))"

subsection \<open>A small tree\<close>

text \<open>
  The state after \<^verbatim>\<open>render\<close> of a box that holds a text element with the text
  \<^verbatim>\<open>hi\<close>, on \<^verbatim>\<open>process.stdout\<close>, in the order in which the reconciler builds it.
  The root node is at address 0 and its adapter at 4; the box is node 5 with adapter
  7, the text element node 8 with adapter 10, the text node 11 with adapter 13.
\<close>

definition example_render :: "error + Instance \<times> world" where
  "example_render =
     render 4
       [CreateElementNS [] ''ink-box'', CreateElementNS [] ''ink-text'', CreateTextNode ''hi'',
        AppendChild 10 13, AppendChild 7 10, AppendChild 4 7]
       NoOptions init"

definition example :: world where
  "example = (case example_render of Inl err \<Rightarrow> init | Inr (h, s) \<Rightarrow> s)"

definition blank :: "string \<Rightarrow> ref option \<Rightarrow> ref list \<Rightarrow> ref \<Rightarrow> string \<Rightarrow> DOMNode" where
  "blank name p cs ob text =
     \<lparr>nodeName = name, parentNode = p, childNodes = cs, yogaNode = None, style = JObject ob,
      attributes = Map.empty, nodeValue = text, internal_transform = JUndefined,
      internal_static = JUndefined, staticNode = None\<rparr>"

subsection \<open>Tools for the statements about the static flag\<close>

text \<open>The name and the children of a node: what the walks depend on.\<close>

definition shape :: "heap \<Rightarrow> ref \<Rightarrow> (string \<times> ref list) option" where
  "shape h m = map_option (\<lambda>nd. (nodeName nd, childNodes nd)) (h m)"

text \<open>The heap after \<^verbatim>\<open>node.internal_static = v\<close> on the node \<open>n\<close>.\<close>

definition flagged :: "ref \<Rightarrow> jsvalue \<Rightarrow> heap \<Rightarrow> heap" where
  "flagged n v h = (\<lambda>m. if m = n then map_option (\<lambda>nd. nd\<lparr>internal_static := v\<rparr>) (h m) else h m)"

text \<open>
  The small tree after the box (node 5) and then the text element (node 8) were flagged
  static through their adapters.
\<close>

definition two_static :: world where
  "two_static =
     (case perform 4 [SetAttribute 7 ''internal_static'' (JBool True),
                      SetAttribute 10 ''internal_static'' (JBool True)] example of
        Inl err \<Rightarrow> init | Inr s \<Rightarrow> s)"

text \<open>
  The same tree after \<^verbatim>\<open>render\<close> was then called for another stream (address 1) with
  nothing to reconcile: the new session is at address 16 and its root node at 14.
\<close>

definition other_session :: world where
  "other_session = (case render 4 [] (Stream 1) two_static of Inl err \<Rightarrow> init | Inr (h, s) \<Rightarrow> s)"

subsection \<open>Reading a result\<close>

text \<open>
  What a style object holds, what is the style of a node and what was recorded after a
  call; \<open>None\<close> if the call threw.
\<close>

definition stored_style :: "error + world \<Rightarrow> ref \<Rightarrow> string \<Rightarrow> stored option" where
  "stored_style res ob prop =
     (case res of
        Inl err \<Rightarrow> None
      | Inr s \<Rightarrow> (case objects s ob of None \<Rightarrow> None | Some m \<Rightarrow> m prop))"

definition trace_of :: "error + world \<Rightarrow> event list option" where
  "trace_of res = (case res of Inl err \<Rightarrow> None | Inr s \<Rightarrow> Some (trace s))"

definition node_style :: "error + world \<Rightarrow> ref \<Rightarrow> jsvalue option" where
  "node_style res n =
     (case res of Inl err \<Rightarrow> None | Inr s \<Rightarrow> map_option style (nodes s n))"

text \<open>The \<^verbatim>\<open>staticNode\<close> slot of a node after a call; \<open>None\<close> if the call threw.\<close>

definition slot_of :: "error + world \<Rightarrow> ref \<Rightarrow> ref option option" where
  "slot_of res n = (case res of Inl err \<Rightarrow> None | Inr s \<Rightarrow> map_option staticNode (nodes s n))"

text \<open>
  The small tree after the deferred task ran, with the layout handle 100 on the box
  and a style object \<^verbatim>\<open>{width: '10px'}\<close> of the caller at address 14.
\<close>

definition laid_out :: world where
  "laid_out =
     upd_node 5 (\<lambda>nd. nd\<lparr>yogaNode := Some 100\<rparr>)
       ((run_timeout example)\<lparr>objects := (objects example)(14 \<mapsto> [''width'' \<mapsto> Value (JString ''10px'')]),
                              fresh := 15\<rparr>)"

subsection \<open>Tools for the statements about the scheduler\<close>

text \<open>The events of a pass: layout recomputation and paint.\<close>

fun is_pass :: "event \<Rightarrow> bool" where
  "is_pass (CalculateLayout i) = True"
| "is_pass (OnRender i) = True"
| "is_pass ev = False"

text \<open>
  \<open>agree s t\<close>: \<open>t\<close> has the scheduler, the passes recorded and the registry of \<open>s\<close>.
  \<open>asked s s'\<close>: \<open>s'\<close> has them as they are after one call of \<^verbatim>\<open>scheduleOutput\<close> in \<open>s\<close>.
\<close>

definition agree :: "world \<Rightarrow> world \<Rightarrow> bool" where
  "agree s t =
     (static_scheduleOutput t = static_scheduleOutput s \<and> timers t = timers s \<and> flush t = flush s \<and>
      requests t = requests s \<and> filter is_pass (trace t) = filter is_pass (trace s) \<and>
      instances t = instances s \<and> inks t = inks s)"

definition asked :: "world \<Rightarrow> world \<Rightarrow> bool" where
  "asked s s' =
     (static_scheduleOutput s' = static_scheduleOutput s \<and> timers s' = timers (scheduleOutput s) \<and>
      flush s' = flush (scheduleOutput s) \<and> requests s' = requests s + 1 \<and>
      filter is_pass (trace s') = filter is_pass (trace s) \<and>
      instances s' = instances s \<and> inks s' = inks s)"

text \<open>
  The pass that a pending timeout runs, and the state after the event loop has run
  every pending timeout, oldest first.
\<close>

fun pass_of :: "ref \<times> ref \<Rightarrow> event list" where
  "pass_of (c, i) = [CalculateLayout i, OnRender i]"

definition run_timeouts :: "world \<Rightarrow> world" where
  "run_timeouts s = (run_timeout ^^ length (timers s)) s"

definition after :: "error + world \<Rightarrow> world option" where
  "after res = (case res of Inl err \<Rightarrow> None | Inr s \<Rightarrow> Some s)"

text \<open>
  A second session: after the deferred task of the small tree ran, \<^verbatim>\<open>render\<close> on another
  stream (address 1) with nothing to reconcile, and then its deferred task. The new
  session is at address 16, its root node at 14, the closure of that call at 17.
\<close>

definition two_sessions :: world where
  "two_sessions =
     (case render 4 [] (Stream 1) (run_timeout example) of
        Inl err \<Rightarrow> init | Inr (h, s) \<Rightarrow> run_timeout s)"

subsection \<open>Tools for the statements about adapters\<close>

text \<open>\<open>is_root s n\<close>: \<open>n\<close> is the root node of a session.\<close>

definition is_root :: "world \<Rightarrow> ref \<Rightarrow> bool" where
  "is_root s n = (\<exists>i ink. inks s i = Some ink \<and> rootNode ink = n)"

text \<open>
  The states of an execution: from the start, any number of calls of \<^verbatim>\<open>render\<close>, of
  operations on adapters and of deferred tasks.
\<close>

inductive_set reachable :: "world set" where
  start: "init \<in> reachable"
| rendered: "s \<in> reachable \<Longrightarrow> render k ops opts s = Inr (h, s') \<Longrightarrow> s' \<in> reachable"
| operated: "s \<in> reachable \<Longrightarrow> apply_op k x s = Inr s' \<Longrightarrow> s' \<in> reachable"
| deferred: "s \<in> reachable \<Longrightarrow> run_timeout s \<in> reachable"

text \<open>
  \<open>registered s\<close>: every adapter wraps an allocated node and is the one that the side
  table holds for it, unless the node is the root node of a session; sessions and their
  root nodes are allocated.
\<close>

definition registered :: "world \<Rightarrow> bool" where
  "registered s =
     ((\<forall>e el. elements s e = Some el \<longrightarrow>
         node el < fresh s \<and> (domNode2PreactElement s (node el) = Some e \<or> is_root s (node el))) \<and>
      (\<forall>i ink. inks s i = Some ink \<longrightarrow> i < fresh s \<and> rootNode ink < fresh s))"

text \<open>The small tree after a second \<^verbatim>\<open>render\<close> on the same stream.\<close>

definition rendered_twice :: world where
  "rendered_twice =
     (case render 0 [] (Stream 0) example of Inl err \<Rightarrow> init | Inr (h, s) \<Rightarrow> s)"

text \<open>\<open>same_adapters s t\<close>: nothing was allocated or registered, and every adapter wraps the node it wrapped.\<close>

definition same_adapters :: "world \<Rightarrow> world \<Rightarrow> bool" where
  "same_adapters s t =
     (domNode2PreactElement t = domNode2PreactElement s \<and> inks t = inks s \<and> fresh t = fresh s \<and>
      (\<forall>e. map_option node (elements t e) = map_option node (elements s e)))"

text \<open>A factory: a new node, wrapped and registered.\<close>

definition manufactured :: "string \<Rightarrow> string \<Rightarrow> world \<Rightarrow> world" where
  "manufactured name str s =
     (let (n, s1) = new_node name str s; (ele, s2) = new_PreactElement n s1
      in s2\<lparr>domNode2PreactElement := (domNode2PreactElement s2)(n \<mapsto> ele)\<rparr>)"

subsection \<open>The states of a run\<close>

text \<open>
  The states in which an operation on an adapter can start: those of \<open>reachable\<close>, and
  also those inside a call of \<^verbatim>\<open>render\<close>, after the scheduler was rebound and between
  the operations of the reconciler and the last call of \<^verbatim>\<open>scheduleOutput\<close>. Layout
  handles may be attached and detached at any time.
\<close>

inductive_set running :: "world set" where
  boot: "init \<in> running"
| entered: "s \<in> running \<Longrightarrow> render_begin opts s = Inr (h, s') \<Longrightarrow> s' \<in> running"
| stepped: "s \<in> running \<Longrightarrow> apply_op k x s = Inr s' \<Longrightarrow> s' \<in> running"
| scheduled: "s \<in> running \<Longrightarrow> scheduleOutput s \<in> running"
| timed_out: "s \<in> running \<Longrightarrow> run_timeout s \<in> running"
| attached: "s \<in> running \<Longrightarrow> set_handle n y s \<in> running"

text \<open>
  \<open>latest h s\<close>: \<open>h\<close> is the control handle that the most recent call of \<^verbatim>\<open>render\<close>
  returned, and \<open>s\<close> is a state after that call, with any number of operations and
  deferred tasks since.
\<close>

inductive latest :: "Instance \<Rightarrow> world \<Rightarrow> bool" where
  returned: "s0 \<in> running \<Longrightarrow> render k ops opts s0 = Inr (h, s) \<Longrightarrow> latest h s"
| then_stepped: "latest h s \<Longrightarrow> apply_op k x s = Inr s' \<Longrightarrow> latest h s'"
| then_timed_out: "latest h s \<Longrightarrow> latest h (run_timeout s)"
| then_attached: "latest h s \<Longrightarrow> latest h (set_handle n y s)"

text \<open>
  What holds of the scheduler in every state of a run (\<open>running_sched_ok\<close> below): the
  closure of a render call has one timeout pending if its \<^verbatim>\<open>flush\<close> is set and none
  otherwise; the pending timeouts are of closures made so far; and those of the closure
  that the scheduler is bound to are for its session.
\<close>

definition sched_ok :: "world \<Rightarrow> bool" where
  "sched_ok s =
     ((\<forall>c. length (filter (\<lambda>t. fst t = c) (timers s)) = (if flush s c then 1 else 0)) \<and>
      (\<forall>t \<in> set (timers s). fst t < fresh s) \<and>
      (\<forall>c i. static_scheduleOutput s = Some (c, i) \<longrightarrow>
          c < fresh s \<and> (\<forall>t \<in> set (timers s). fst t = c \<longrightarrow> snd t = i)))"

subsection \<open>Tools for the statements about layout handles\<close>

text \<open>
  The layout handles that a subtree contains, in pre-order; \<open>owned_under h n\<close> is the set
  of the handles of the nodes reachable from \<open>n\<close>; \<open>release_view\<close> is what a release
  reads of a node.
\<close>

fun handles_under :: "nat \<Rightarrow> heap \<Rightarrow> ref \<Rightarrow> ref list"
  and handles_under_children :: "nat \<Rightarrow> heap \<Rightarrow> ref list \<Rightarrow> ref list" where
  "handles_under 0 h n = []"
| "handles_under (Suc k) h n =
     (case h n of
        None \<Rightarrow> []
      | Some nd \<Rightarrow>
          (case yogaNode nd of None \<Rightarrow> [] | Some y \<Rightarrow> [y]) @ handles_under_children k h (childNodes nd))"
| "handles_under_children k h [] = []"
| "handles_under_children k h (child # rest) = handles_under k h child @ handles_under_children k h rest"

definition owned_under :: "heap \<Rightarrow> ref \<Rightarrow> ref set" where
  "owned_under h n = {y. \<exists>m nd. m \<in> reach h n \<and> h m = Some nd \<and> yogaNode nd = Some y}"

definition release_view :: "heap \<Rightarrow> ref \<Rightarrow> (ref list \<times> ref option) option" where
  "release_view h m = map_option (\<lambda>nd. (childNodes nd, yogaNode nd)) (h m)"

text \<open>The small tree with the handle 100 on the box and the handle 101 on the text element.\<close>

definition with_handles :: world where
  "with_handles = set_handle 8 (Some 101) laid_out"

text \<open>
  The nodes of a subtree in pre-order and the handle of a node. \<open>exclusive k h n\<close>: no
  node occurs twice under \<open>n\<close> and no two nodes under \<open>n\<close> hold the same handle.
\<close>

fun nodes_under :: "nat \<Rightarrow> heap \<Rightarrow> ref \<Rightarrow> ref list"
  and nodes_under_children :: "nat \<Rightarrow> heap \<Rightarrow> ref list \<Rightarrow> ref list" where
  "nodes_under 0 h n = []"
| "nodes_under (Suc k) h n =
     (case h n of None \<Rightarrow> [] | Some nd \<Rightarrow> n # nodes_under_children k h (childNodes nd))"
| "nodes_under_children k h [] = []"
| "nodes_under_children k h (child # rest) = nodes_under k h child @ nodes_under_children k h rest"

definition handle_of :: "heap \<Rightarrow> ref \<Rightarrow> ref option" where
  "handle_of h m = (case h m of None \<Rightarrow> None | Some nd \<Rightarrow> yogaNode nd)"

definition exclusive :: "nat \<Rightarrow> heap \<Rightarrow> ref \<Rightarrow> bool" where
  "exclusive k h n =
     (distinct (nodes_under k h n) \<and>
      (\<forall>m \<in> set (nodes_under k h n). \<forall>m' \<in> set (nodes_under k h n).
          handle_of h m \<noteq> None \<and> handle_of h m = handle_of h m' \<longrightarrow> m = m'))"

text \<open>The same tree with the handle 101 on the text element and none on the box.\<close>

definition headless :: world where
  "headless = set_handle 5 None with_handles"

section \<open>Basic facts\<close>

subsection \<open>What each primitive leaves alone\<close>

lemma upd_node_fields [simp]:
  "objects (upd_node n f s) = objects s"
  "elements (upd_node n f s) = elements s"
  "domNode2PreactElement (upd_node n f s) = domNode2PreactElement s"
  "inks (upd_node n f s) = inks s"
  "instances (upd_node n f s) = instances s"
  "static_scheduleOutput (upd_node n f s) = static_scheduleOutput s"
  "static_root (upd_node n f s) = static_root s"
  "flush (upd_node n f s) = flush s"
  "timers (upd_node n f s) = timers s"
  "trace (upd_node n f s) = trace s"
  "requests (upd_node n f s) = requests s"
  "fresh (upd_node n f s) = fresh s"
  by (simp_all add: upd_node_def split: option.splits)

lemma upd_node_nodes:
  "nodes (upd_node n f s) = (case nodes s n of None \<Rightarrow> nodes s | Some nd \<Rightarrow> (nodes s)(n \<mapsto> f nd))"
  by (simp add: upd_node_def split: option.splits)

lemma scheduleOutput_fields [simp]:
  "nodes (scheduleOutput s) = nodes s"
  "objects (scheduleOutput s) = objects s"
  "elements (scheduleOutput s) = elements s"
  "domNode2PreactElement (scheduleOutput s) = domNode2PreactElement s"
  "inks (scheduleOutput s) = inks s"
  "instances (scheduleOutput s) = instances s"
  "static_scheduleOutput (scheduleOutput s) = static_scheduleOutput s"
  "static_root (scheduleOutput s) = static_root s"
  "trace (scheduleOutput s) = trace s"
  "requests (scheduleOutput s) = requests s + 1"
  "fresh (scheduleOutput s) = fresh s"
  by (simp_all add: scheduleOutput_def split: option.splits prod.splits)

lemma dom_removeChildNode_fields [simp]:
  "objects (dom_removeChildNode p c s) = objects s"
  "elements (dom_removeChildNode p c s) = elements s"
  "domNode2PreactElement (dom_removeChildNode p c s) = domNode2PreactElement s"
  "inks (dom_removeChildNode p c s) = inks s"
  "instances (dom_removeChildNode p c s) = instances s"
  "static_scheduleOutput (dom_removeChildNode p c s) = static_scheduleOutput s"
  "static_root (dom_removeChildNode p c s) = static_root s"
  "flush (dom_removeChildNode p c s) = flush s"
  "timers (dom_removeChildNode p c s) = timers s"
  "trace (dom_removeChildNode p c s) = trace s"
  "requests (dom_removeChildNode p c s) = requests s"
  "fresh (dom_removeChildNode p c s) = fresh s"
  by (simp_all add: dom_removeChildNode_def)

lemma detach_fields [simp]:
  "objects (detach c s) = objects s"
  "elements (detach c s) = elements s"
  "domNode2PreactElement (detach c s) = domNode2PreactElement s"
  "inks (detach c s) = inks s"
  "instances (detach c s) = instances s"
  "static_scheduleOutput (detach c s) = static_scheduleOutput s"
  "static_root (detach c s) = static_root s"
  "flush (detach c s) = flush s"
  "timers (detach c s) = timers s"
  "trace (detach c s) = trace s"
  "requests (detach c s) = requests s"
  "fresh (detach c s) = fresh s"
  by (simp_all add: detach_def split: option.splits)

lemma dom_appendChildNode_fields [simp]:
  "objects (dom_appendChildNode p c s) = objects s"
  "elements (dom_appendChildNode p c s) = elements s"
  "domNode2PreactElement (dom_appendChildNode p c s) = domNode2PreactElement s"
  "inks (dom_appendChildNode p c s) = inks s"
  "instances (dom_appendChildNode p c s) = instances s"
  "static_scheduleOutput (dom_appendChildNode p c s) = static_scheduleOutput s"
  "static_root (dom_appendChildNode p c s) = static_root s"
  "flush (dom_appendChildNode p c s) = flush s"
  "timers (dom_appendChildNode p c s) = timers s"
  "trace (dom_appendChildNode p c s) = trace s"
  "requests (dom_appendChildNode p c s) = requests s"
  "fresh (dom_appendChildNode p c s) = fresh s"
  by (simp_all add: dom_appendChildNode_def)

lemma dom_insertBeforeNode_fields [simp]:
  "objects (dom_insertBeforeNode p c r s) = objects s"
  "elements (dom_insertBeforeNode p c r s) = elements s"
  "domNode2PreactElement (dom_insertBeforeNode p c r s) = domNode2PreactElement s"
  "inks (dom_insertBeforeNode p c r s) = inks s"
  "instances (dom_insertBeforeNode p c r s) = instances s"
  "static_scheduleOutput (dom_insertBeforeNode p c r s) = static_scheduleOutput s"
  "static_root (dom_insertBeforeNode p c r s) = static_root s"
  "flush (dom_insertBeforeNode p c r s) = flush s"
  "timers (dom_insertBeforeNode p c r s) = timers s"
  "trace (dom_insertBeforeNode p c r s) = trace s"
  "requests (dom_insertBeforeNode p c r s) = requests s"
  "fresh (dom_insertBeforeNode p c r s) = fresh s"
  by (simp_all add: dom_insertBeforeNode_def)

lemma dom_setStyle_fields [simp]:
  "objects (dom_setStyle n v s) = objects s"
  "elements (dom_setStyle n v s) = elements s"
  "domNode2PreactElement (dom_setStyle n v s) = domNode2PreactElement s"
  "inks (dom_setStyle n v s) = inks s"
  "instances (dom_setStyle n v s) = instances s"
  "static_scheduleOutput (dom_setStyle n v s) = static_scheduleOutput s"
  "static_root (dom_setStyle n v s) = static_root s"
  "flush (dom_setStyle n v s) = flush s"
  "timers (dom_setStyle n v s) = timers s"
  "trace (dom_setStyle n v s) = trace s"
  "requests (dom_setStyle n v s) = requests s"
  "fresh (dom_setStyle n v s) = fresh s"
  by (simp_all add: dom_setStyle_def)

lemma dom_setAttribute_fields [simp]:
  "objects (dom_setAttribute n key v s) = objects s"
  "elements (dom_setAttribute n key v s) = elements s"
  "domNode2PreactElement (dom_setAttribute n key v s) = domNode2PreactElement s"
  "inks (dom_setAttribute n key v s) = inks s"
  "instances (dom_setAttribute n key v s) = instances s"
  "static_scheduleOutput (dom_setAttribute n key v s) = static_scheduleOutput s"
  "static_root (dom_setAttribute n key v s) = static_root s"
  "flush (dom_setAttribute n key v s) = flush s"
  "timers (dom_setAttribute n key v s) = timers s"
  "trace (dom_setAttribute n key v s) = trace s"
  "requests (dom_setAttribute n key v s) = requests s"
  "fresh (dom_setAttribute n key v s) = fresh s"
  by (simp_all add: dom_setAttribute_def)

lemma dom_setTextNodeValue_fields [simp]:
  "objects (dom_setTextNodeValue n t s) = objects s"
  "elements (dom_setTextNodeValue n t s) = elements s"
  "domNode2PreactElement (dom_setTextNodeValue n t s) = domNode2PreactElement s"
  "inks (dom_setTextNodeValue n t s) = inks s"
  "instances (dom_setTextNodeValue n t s) = instances s"
  "static_scheduleOutput (dom_setTextNodeValue n t s) = static_scheduleOutput s"
  "static_root (dom_setTextNodeValue n t s) = static_root s"
  "flush (dom_setTextNodeValue n t s) = flush s"
  "timers (dom_setTextNodeValue n t s) = timers s"
  "trace (dom_setTextNodeValue n t s) = trace s"
  "requests (dom_setTextNodeValue n t s) = requests s"
  "fresh (dom_setTextNodeValue n t s) = fresh s"
  by (simp_all add: dom_setTextNodeValue_def)

lemma reflect_set_fields [simp]:
  "nodes (reflect_set ob prop v s) = nodes s"
  "elements (reflect_set ob prop v s) = elements s"
  "domNode2PreactElement (reflect_set ob prop v s) = domNode2PreactElement s"
  "inks (reflect_set ob prop v s) = inks s"
  "instances (reflect_set ob prop v s) = instances s"
  "static_scheduleOutput (reflect_set ob prop v s) = static_scheduleOutput s"
  "static_root (reflect_set ob prop v s) = static_root s"
  "flush (reflect_set ob prop v s) = flush s"
  "timers (reflect_set ob prop v s) = timers s"
  "trace (reflect_set ob prop v s) = trace s"
  "requests (reflect_set ob prop v s) = requests s"
  "fresh (reflect_set ob prop v s) = fresh s"
  by (simp_all add: reflect_set_def split: option.splits)

lemma applyStyle_fields [simp]:
  "nodes (applyStyle y ob s) = nodes s"
  "objects (applyStyle y ob s) = objects s"
  "elements (applyStyle y ob s) = elements s"
  "domNode2PreactElement (applyStyle y ob s) = domNode2PreactElement s"
  "inks (applyStyle y ob s) = inks s"
  "instances (applyStyle y ob s) = instances s"
  "static_scheduleOutput (applyStyle y ob s) = static_scheduleOutput s"
  "static_root (applyStyle y ob s) = static_root s"
  "flush (applyStyle y ob s) = flush s"
  "timers (applyStyle y ob s) = timers s"
  "requests (applyStyle y ob s) = requests s"
  "fresh (applyStyle y ob s) = fresh s"
  by (simp_all add: applyStyle_def)

lemma forward_fields [simp]:
  "nodes (forward n ob s) = nodes s"
  "objects (forward n ob s) = objects s"
  "elements (forward n ob s) = elements s"
  "domNode2PreactElement (forward n ob s) = domNode2PreactElement s"
  "inks (forward n ob s) = inks s"
  "instances (forward n ob s) = instances s"
  "static_scheduleOutput (forward n ob s) = static_scheduleOutput s"
  "static_root (forward n ob s) = static_root s"
  "fresh (forward n ob s) = fresh s"
  by (simp_all add: forward_def split: option.splits)

lemma proxy_set_fields [simp]:
  "nodes (proxy_set n ob prop v s) = nodes s"
  "elements (proxy_set n ob prop v s) = elements s"
  "domNode2PreactElement (proxy_set n ob prop v s) = domNode2PreactElement s"
  "inks (proxy_set n ob prop v s) = inks s"
  "instances (proxy_set n ob prop v s) = instances s"
  "static_scheduleOutput (proxy_set n ob prop v s) = static_scheduleOutput s"
  "static_root (proxy_set n ob prop v s) = static_root s"
  "fresh (proxy_set n ob prop v s) = fresh s"
  by (simp_all add: proxy_set_def split: jsvalue.splits)

subsection \<open>The small tree, written out\<close>

lemmas eval_defs = render_def inkOptions_stdout_def process_stdout_def getInstance_def new_Ink_def dom_createNode_def
  dom_createTextNode_def new_node_def new_PreactElement_def createTextNode_def createElementNS_def
  appendChild_def wrapped_def isContainer_def scheduleOutput_def dom_appendChildNode_def detach_def
  upd_node_def dom_removeChildNode_def init_def nodeTypes_def TEXT_NODE_def BOX_NODE_def ROOT_NODE_def Let_def

lemma example_eq:
  "example =
     \<lparr>nodes = [0 \<mapsto> blank ''ink-root'' None [5] 1 [], 5 \<mapsto> blank ''ink-box'' (Some 0) [8] 6 [],
               8 \<mapsto> blank ''ink-text'' (Some 5) [11] 9 [], 11 \<mapsto> blank ''#text'' (Some 8) [] 12 ''hi''],
      objects = [1 \<mapsto> Map.empty, 6 \<mapsto> Map.empty, 9 \<mapsto> Map.empty, 12 \<mapsto> Map.empty],
      elements = [4 \<mapsto> \<lparr>node = 0, nodeType = Some 4, style_proxy = None\<rparr>,
                  7 \<mapsto> \<lparr>node = 5, nodeType = Some 3, style_proxy = None\<rparr>,
                  10 \<mapsto> \<lparr>node = 8, nodeType = Some 1, style_proxy = None\<rparr>,
                  13 \<mapsto> \<lparr>node = 11, nodeType = Some 1, style_proxy = None\<rparr>],
      domNode2PreactElement = [5 \<mapsto> 7, 8 \<mapsto> 10, 11 \<mapsto> 13],
      inks = [2 \<mapsto> \<lparr>rootNode = 0\<rparr>], instances = [0 \<mapsto> 2],
      static_scheduleOutput = Some (3, 2), static_root = Some 0,
      flush = (\<lambda>c. False)(3 := True), timers = [(3, 2)], trace = [], requests = 4, fresh = 14\<rparr>"
  unfolding example_def example_render_def
  apply (simp add: eval_defs blank_def)
  apply (auto simp: fun_eq_iff)
  done

subsection \<open>Reachability and the search of \<^verbatim>\<open>contains\<close>\<close>

lemma reach_trans: "x \<in> reach h c \<Longrightarrow> c \<in> reach h n \<Longrightarrow> x \<in> reach h n"
  by (induction rule: reach.induct) (auto intro: reach.intros)

lemma reach_step: "h n = Some nd \<Longrightarrow> c \<in> set (childNodes nd) \<Longrightarrow> x \<in> reach h c \<Longrightarrow> x \<in> reach h n"
  by (rule reach_trans, assumption) (rule reach.child[OF reach.self])

lemma reach_cases:
  "x \<in> reach h n \<Longrightarrow> x = n \<or> (\<exists>nd c. h n = Some nd \<and> c \<in> set (childNodes nd) \<and> x \<in> reach h c)"
proof (induction rule: reach.induct)
  case self
  then show ?case by simp
next
  case (child m nd c)
  from child.IH show ?case
  proof
    assume "m = n"
    with child.hyps show ?thesis by (auto intro: reach.self)
  next
    assume "\<exists>nd' c'. h n = Some nd' \<and> c' \<in> set (childNodes nd') \<and> m \<in> reach h c'"
    then obtain nd' c' where *: "h n = Some nd'" "c' \<in> set (childNodes nd')" "m \<in> reach h c'" by blast
    from *(3) child.hyps(2,3) have "c \<in> reach h c'" by (rule reach.child)
    with * show ?thesis by blast
  qed
qed

lemma reach_unfold:
  "h n = Some nd \<Longrightarrow> reach h n = insert n (\<Union>c \<in> set (childNodes nd). reach h c)"
  by (auto intro: reach.self reach_step dest: reach_cases)

lemma search_children_any:
  "\<forall>c \<in> set cs. search k h x c = Some (x \<in> reach h c) \<Longrightarrow>
   search_children k h x cs = Some (\<exists>c \<in> set cs. x \<in> reach h c)"
  by (induction cs) (auto split: bool.splits)

lemma search_reach: "tree_ok k h n \<Longrightarrow> search k h x n = Some (x \<in> reach h n)"
proof (induction k arbitrary: n)
  case 0
  then show ?case by simp
next
  case (Suc k)
  then obtain nd where nd: "h n = Some nd" and cs: "list_all (tree_ok k h) (childNodes nd)"
    by (auto split: option.splits)
  from cs Suc.IH have "\<forall>c \<in> set (childNodes nd). search k h x c = Some (x \<in> reach h c)"
    by (simp add: list_all_iff)
  then have "search_children k h x (childNodes nd) = Some (\<exists>c \<in> set (childNodes nd). x \<in> reach h c)"
    by (rule search_children_any)
  with nd reach_unfold[of h n nd] show ?case by auto
qed

subsection \<open>Node lookups after an update\<close>

lemma nodes_upd_node:
  "nodes (upd_node n f s) m = (if m = n then map_option f (nodes s m) else nodes s m)"
  by (simp add: upd_node_def split: option.splits)

lemma nodes_dom_setAttribute:
  "nodes (dom_setAttribute n key v s) m =
     (if m = n then map_option (\<lambda>nd. nd\<lparr>attributes := (attributes nd)(key \<mapsto> v)\<rparr>) (nodes s m) else nodes s m)"
  by (simp add: dom_setAttribute_def nodes_upd_node)

lemma nodes_dom_setStyle:
  "nodes (dom_setStyle n v s) m = (if m = n then map_option (\<lambda>nd. nd\<lparr>style := v\<rparr>) (nodes s m) else nodes s m)"
  by (simp add: dom_setStyle_def nodes_upd_node)

subsection \<open>The search for the static node\<close>

lemma find_app:
  "find P (xs @ ys) = (case find P xs of None \<Rightarrow> find P ys | Some x \<Rightarrow> Some x)"
  by (induction xs) auto

lemma searchStatic_children_find:
  "\<forall>c \<in> set cs. searchStatic k h c = Some (find (is_static h) (visit_order k h c)) \<Longrightarrow>
   searchStatic_children k h cs = Some (find (is_static h) (visit_order_children k h cs))"
  by (induction cs) (auto simp: find_app split: option.splits)

lemma searchStatic_find:
  "tree_ok k h n \<Longrightarrow> searchStatic k h n = Some (find (is_static h) (visit_order k h n))"
proof (induction k arbitrary: n)
  case 0
  then show ?case by simp
next
  case (Suc k)
  then obtain nd where nd: "h n = Some nd" and cs: "list_all (tree_ok k h) (childNodes nd)"
    by (auto split: option.splits)
  from cs Suc.IH have "\<forall>c \<in> set (childNodes nd). searchStatic k h c = Some (find (is_static h) (visit_order k h c))"
    by (simp add: list_all_iff)
  then have "searchStatic_children k h (childNodes nd) = Some (find (is_static h) (visit_order_children k h (childNodes nd)))"
    by (rule searchStatic_children_find)
  moreover from nd have "is_static h n = truthy (internal_static nd)"
    by (simp add: is_static_def)
  ultimately show ?case using nd by simp
qed

lemma visit_order_shape:
  assumes "\<And>m. shape h' m = shape h m"
  shows "visit_order k h' n = visit_order k h n"
proof (induction k arbitrary: n)
  case 0
  show ?case by simp
next
  case (Suc k)
  have ch: "visit_order_children k h' cs = visit_order_children k h cs" for cs
    by (induction cs) (simp_all add: Suc.IH)
  from assms[of n] show ?case
    by (cases "h n"; cases "h' n") (auto simp: shape_def ch)
qed

lemma tree_ok_shape:
  assumes "\<And>m. shape h' m = shape h m"
  shows "tree_ok k h' n = tree_ok k h n"
proof (induction k arbitrary: n)
  case 0
  show ?case by simp
next
  case (Suc k)
  have ch: "list_all (tree_ok k h') cs = list_all (tree_ok k h) cs" for cs
    by (induction cs) (simp_all add: Suc.IH)
  from assms[of n] show ?case
    by (cases "h n"; cases "h' n") (auto simp: shape_def ch)
qed

lemma shape_flagged [simp]: "shape (flagged n v h) m = shape h m"
  by (simp add: shape_def flagged_def option.map_comp comp_def)

lemma is_static_flagged:
  "is_static (flagged n v h) m = (if m = n \<and> h n \<noteq> None then truthy v else is_static h m)"
  by (auto simp: is_static_def flagged_def split: option.splits)

lemma setAttribute_static:
  assumes e: "elements s e = Some el" and r: "static_root s = Some r" and rn: "nodes s r = Some rn0"
      and f: "if truthy v then found = Some (node el)
              else searchStatic k (flagged (node el) v (nodes s)) r = Some found"
  shows "\<exists>s' rn. setAttribute k e ''internal_static'' v s = Inr s' \<and> nodes s' r = Some rn \<and>
           staticNode rn = found \<and>
           (\<forall>m. shape (nodes s') m = shape (nodes s) m) \<and>
           (\<forall>m. is_static (nodes s') m = is_static (flagged (node el) v (nodes s)) m) \<and>
           elements s' = elements s \<and> static_root s' = static_root s"
proof -
  have h1: "nodes (upd_node (node el) (\<lambda>nd. nd\<lparr>internal_static := v\<rparr>) s) = flagged (node el) v (nodes s)"
    by (rule ext) (simp add: nodes_upd_node flagged_def)
  show ?thesis
    using assms
    by (auto simp: setAttribute_def set_static_def Let_def h1 nodes_upd_node nodes_dom_setAttribute
          shape_def is_static_def flagged_def option.map_comp comp_def
          split: if_splits option.splits)
qed


lemma find_first: "\<forall>x \<in> set xs. \<not> P x \<Longrightarrow> P a \<Longrightarrow> find P (xs @ a # ys) = Some a"
  by (induction xs) auto

lemma is_static_None: "h n = None \<Longrightarrow> \<not> is_static h n"
  by (simp add: is_static_def)

lemmas two_static_defs = two_static_def setAttribute_def set_static_def example_eq upd_node_def
  dom_setAttribute_def scheduleOutput_def blank_def Let_def

lemma two_static_facts:
  "elements two_static 10 = Some \<lparr>node = 8, nodeType = Some 1, style_proxy = None\<rparr>"
  "static_root two_static = Some 0"
  "tree_ok 4 (nodes two_static) 0"
  "visit_order 4 (nodes two_static) 0 = [0] @ 5 # [8]"
  "\<forall>x \<in> set [0]. \<not> is_static (nodes two_static) x"
  "is_static (nodes two_static) 5"
  "map_option staticNode (nodes two_static 0) = Some (Some 8)"
  by (simp_all add: two_static_defs is_static_def eval_nat_numeral)

lemma laid_out_eq:
  "laid_out =
     \<lparr>nodes = [0 \<mapsto> blank ''ink-root'' None [5] 1 [],
               5 \<mapsto> (blank ''ink-box'' (Some 0) [8] 6 [])\<lparr>yogaNode := Some 100\<rparr>,
               8 \<mapsto> blank ''ink-text'' (Some 5) [11] 9 [], 11 \<mapsto> blank ''#text'' (Some 8) [] 12 ''hi''],
      objects = [1 \<mapsto> Map.empty, 6 \<mapsto> Map.empty, 9 \<mapsto> Map.empty, 12 \<mapsto> Map.empty,
                 14 \<mapsto> [''width'' \<mapsto> Value (JString ''10px'')]],
      elements = [4 \<mapsto> \<lparr>node = 0, nodeType = Some 4, style_proxy = None\<rparr>,
                  7 \<mapsto> \<lparr>node = 5, nodeType = Some 3, style_proxy = None\<rparr>,
                  10 \<mapsto> \<lparr>node = 8, nodeType = Some 1, style_proxy = None\<rparr>,
                  13 \<mapsto> \<lparr>node = 11, nodeType = Some 1, style_proxy = None\<rparr>],
      domNode2PreactElement = [5 \<mapsto> 7, 8 \<mapsto> 10, 11 \<mapsto> 13],
      inks = [2 \<mapsto> \<lparr>rootNode = 0\<rparr>], instances = [0 \<mapsto> 2],
      static_scheduleOutput = Some (3, 2), static_root = Some 0,
      flush = (\<lambda>c. False), timers = [], trace = [CalculateLayout 2, OnRender 2], requests = 4,
      fresh = 15\<rparr>"
  unfolding laid_out_def
  apply (simp add: example_eq run_timeout_def upd_node_def)
  apply (auto simp: fun_eq_iff)
  done

lemmas style_defs = style_assign_def get_style_def wrapped_def proxy_set_def forward_def reflect_set_def
  applyStyle_def scheduleOutput_def stored_style_def test_digits_px_def is_digit_def unary_plus_def
  digits_value_def blank_def

subsection \<open>The set trap on a run of digits followed by px\<close>

lemma replace_first_digits:
  "list_all is_digit ds \<Longrightarrow> replace_first ''px'' [] (ds @ ''px'' @ rest) = ds @ rest"
  by (induction ds) (auto simp: is_digit_def)

lemma test_digits_px_digits:
  "list_all is_digit ds \<Longrightarrow> test_digits_px (ds @ ''px'' @ rest) = (ds \<noteq> [])"
  by (simp add: test_digits_px_def takeWhile_append2 dropWhile_append2 list_all_iff is_digit_def)

lemma proxy_set_digits_px:
  assumes "ds \<noteq> []" and "list_all is_digit ds" and "digits_value ds \<le> 2 ^ 53"
      and "objects s ob = Some m"
  shows "objects (proxy_set n ob prop (JString (ds @ ''px'')) s) ob
           = Some (m(prop \<mapsto> Value (JNumber (Finite (of_nat (digits_value ds))))))"
  using assms test_digits_px_digits[of ds "[]"] replace_first_digits[of ds "[]"]
  by (simp add: proxy_set_def unary_plus_def reflect_set_def forward_def split: option.splits)

lemma proxy_set_forwards_stored:
  assumes "objects s ob = Some m" and "nodes s n = Some nd" and "yogaNode nd = Some y"
  shows "trace (proxy_set n ob prop v s) =
           trace s @ [ApplyStyle y (the (objects (proxy_set n ob prop v s) ob))]"
  using assms
  by (simp add: proxy_set_def forward_def applyStyle_def reflect_set_def split: jsvalue.splits)


subsection \<open>Scheduling from states that agree on the scheduler\<close>

lemma scheduleOutput_same:
  assumes "static_scheduleOutput t = static_scheduleOutput s" "timers t = timers s" "flush t = flush s"
  shows "timers (scheduleOutput t) = timers (scheduleOutput s)"
    and "flush (scheduleOutput t) = flush (scheduleOutput s)"
  using assms by (simp_all add: scheduleOutput_def split: option.splits prod.splits)

subsection \<open>What an operation does to the scheduler\<close>

lemma agree_refl [simp]: "agree s s"
  by (simp add: agree_def)

lemma agree_frames [simp]:
  "agree s (upd_node n f t) = agree s t"
  "agree s (dom_removeChildNode p c t) = agree s t"
  "agree s (detach c t) = agree s t"
  "agree s (dom_appendChildNode p c t) = agree s t"
  "agree s (dom_insertBeforeNode p c r t) = agree s t"
  "agree s (dom_setStyle n v t) = agree s t"
  "agree s (dom_setAttribute n key v t) = agree s t"
  "agree s (dom_setTextNodeValue n text t) = agree s t"
  "agree s (reflect_set ob prop sv t) = agree s t"
  by (simp_all add: agree_def)

lemma agree_applyStyle [simp]: "agree s (applyStyle y ob t) = agree s t"
  by (simp add: agree_def applyStyle_def)

lemma agree_elements [simp]: "agree s (t\<lparr>elements := els\<rparr>) = agree s t"
  by (simp add: agree_def)

lemma asked_scheduleOutput: "agree s t \<Longrightarrow> asked s (scheduleOutput t)"
  using scheduleOutput_same[of t s] by (simp add: agree_def asked_def)

lemma asked_frames [simp]:
  "asked s (upd_node n f t) = asked s t"
  "asked s (dom_appendChildNode p c t) = asked s t"
  "asked s (dom_insertBeforeNode p c r t) = asked s t"
  by (simp_all add: asked_def)

lemma release_agree: "release k c t = Inr t' \<Longrightarrow> agree s t' = agree s t"
  by (auto simp: release_def agree_def comp_def split: option.splits)

lemma forward_step: "agree s t \<Longrightarrow> agree s (forward n ob t) \<or> asked s (forward n ob t)"
  by (auto simp: forward_def asked_scheduleOutput split: option.splits)

lemma proxy_set_step: "agree s t \<Longrightarrow> agree s (proxy_set n ob prop v t) \<or> asked s (proxy_set n ob prop v t)"
  by (simp add: proxy_set_def forward_step split: jsvalue.splits)

lemma get_style_agree: "get_style e s = Inr (ob, t) \<Longrightarrow> agree s t"
  by (auto simp: get_style_def split: option.splits prod.splits jsvalue.splits)

lemma new_node_agree: "agree s (snd (new_node name text t)) = agree s t"
  by (simp add: new_node_def Let_def agree_def)

lemma new_PreactElement_agree: "agree s (snd (new_PreactElement n t)) = agree s t"
  by (simp add: new_PreactElement_def Let_def agree_def)

lemma createTextNode_agree: "agree s (snd (createTextNode text s))"
  by (simp add: createTextNode_def dom_createTextNode_def new_node_def new_PreactElement_def
      Let_def agree_def split: prod.splits)

lemma createElementNS_agree: "createElementNS ns name s = Inr (e, t) \<Longrightarrow> agree s t"
  by (auto simp: createElementNS_def dom_createNode_def new_node_def new_PreactElement_def
      Let_def agree_def split: prod.splits if_splits)

lemma appendChild_asked: "appendChild e new s = Inr s' \<Longrightarrow> asked s s'"
  by (auto simp: appendChild_def asked_scheduleOutput split: option.splits if_splits)

lemma insertBefore_asked: "insertBefore e new child s = Inr s' \<Longrightarrow> asked s s'"
  by (auto simp: insertBefore_def asked_scheduleOutput split: option.splits if_splits)

lemma removeChild_asked:
  assumes "removeChild k e child s = Inr s'"
  shows "asked s s'"
proof -
  from assms obtain p c t where t: "release k c (dom_removeChildNode p c s) = Inr t"
      and s': "s' = scheduleOutput t"
    by (auto simp: removeChild_def split: option.splits if_splits sum.splits)
  from release_agree[OF t, of s] have "agree s t" by simp
  with s' show ?thesis by (simp add: asked_scheduleOutput)
qed

lemma set_static_agree: "set_static k n v t = Inr t' \<Longrightarrow> agree s t' = agree s t"
  by (auto simp: set_static_def Let_def split: option.splits if_splits)

lemma setAttribute_asked:
  assumes "setAttribute k e key v s = Inr s'"
  shows "asked s s'"
proof -
  from assms obtain el where el: "elements s e = Some el"
    by (auto simp: setAttribute_def split: option.splits)
  define s2 where "s2 =
     (if key = ''internal_transform''
      then upd_node (node el) (\<lambda>nd. nd\<lparr>internal_transform := v\<rparr>)
             (if key = ''style'' then dom_setStyle (node el) v s else s)
      else (if key = ''style'' then dom_setStyle (node el) v s else s))"
  have a2: "agree s s2" by (simp add: s2_def)
  from el have "setAttribute k e key v s =
      (case (if key = ''internal_static'' then set_static k (node el) v s2 else Inr s2) of
         Inl err \<Rightarrow> Inl err
       | Inr s3 \<Rightarrow> Inr (scheduleOutput (dom_setAttribute (node el) key v s3)))"
    by (simp add: setAttribute_def Let_def s2_def)
  with assms obtain s3 where s3: "(if key = ''internal_static'' then set_static k (node el) v s2 else Inr s2) = Inr s3"
      and s': "s' = scheduleOutput (dom_setAttribute (node el) key v s3)"
    by (auto split: sum.splits)
  from s3 a2 have "agree s s3"
    by (cases "key = ''internal_static''") (simp_all add: set_static_agree)
  with s' show ?thesis by (simp add: asked_scheduleOutput)
qed

lemma set_internal_transform_asked: "set_internal_transform e v s = Inr s' \<Longrightarrow> asked s s'"
  by (auto simp: set_internal_transform_def asked_scheduleOutput split: option.splits)

lemma style_assign_step:
  assumes "style_assign e prop v s = Inr s'"
  shows "agree s s' \<or> asked s s'"
proof -
  from assms obtain ob s1 n where g: "get_style e s = Inr (ob, s1)" and s': "s' = proxy_set n ob prop v s1"
    by (auto simp: style_assign_def split: sum.splits option.splits)
  from g have "agree s s1" by (rule get_style_agree)
  then show ?thesis unfolding s' by (rule proxy_set_step)
qed

lemma set_data_step: "set_data e str s = Inr s' \<Longrightarrow> agree s s' \<or> asked s s'"
  by (auto simp: set_data_def asked_scheduleOutput split: option.splits if_splits)

lemma apply_op_step:
  assumes "apply_op k x s = Inr s'"
  shows "agree s s' \<or> asked s s'"
proof (cases x)
  case (CreateTextNode str)
  with assms have "s' = snd (createTextNode str s)" by simp
  then show ?thesis by (simp add: createTextNode_agree)
next
  case (CreateElementNS ns name)
  with assms obtain e where "createElementNS ns name s = Inr (e, s')"
    by (auto split: sum.splits)
  then have "agree s s'" by (rule createElementNS_agree)
  then show ?thesis ..
next
  case (AppendChild e new)
  with assms show ?thesis by (simp add: appendChild_asked)
next
  case (InsertBefore e new child)
  with assms show ?thesis by (simp add: insertBefore_asked)
next
  case (RemoveChild e child)
  with assms show ?thesis by (simp add: removeChild_asked)
next
  case (SetAttribute e key v)
  with assms show ?thesis by (simp add: setAttribute_asked)
next
  case (StyleAssign e p v)
  with assms show ?thesis by (simp add: style_assign_step)
next
  case (SetData e str)
  with assms show ?thesis by (simp add: set_data_step)
next
  case (SetInternalTransform e v)
  with assms show ?thesis by (simp add: set_internal_transform_asked)
qed


lemma op_requests:
  assumes "apply_op k x s = Inr s'"
  shows "requests s' = requests s +
           (case x of
              AppendChild e new \<Rightarrow> 1 | InsertBefore e new child \<Rightarrow> 1 | RemoveChild e child \<Rightarrow> 1
            | SetAttribute e key v \<Rightarrow> 1 | SetInternalTransform e v \<Rightarrow> 1
            | StyleAssign e p v \<Rightarrow>
                (case elements s e of None \<Rightarrow> 0
                 | Some el \<Rightarrow> (case nodes s (node el) of None \<Rightarrow> 0
                     | Some nd \<Rightarrow> if yogaNode nd = None then 0 else 1))
            | SetData e str \<Rightarrow>
                (case wrapped e s of None \<Rightarrow> 0
                 | Some (el, nd) \<Rightarrow> if nodeName nd = ''#text'' then 1 else 0)
            | _ \<Rightarrow> 0)"
proof (cases x)
  case (CreateTextNode str)
  with assms createTextNode_agree[of s str] show ?thesis by (auto simp: agree_def)
next
  case (CreateElementNS ns name)
  with assms obtain e where "createElementNS ns name s = Inr (e, s')"
    by (auto split: sum.splits)
  then have "agree s s'" by (rule createElementNS_agree)
  with CreateElementNS show ?thesis by (simp add: agree_def)
next
  case (AppendChild e new)
  with assms appendChild_asked[of e new s s'] show ?thesis by (simp add: asked_def)
next
  case (InsertBefore e new child)
  with assms insertBefore_asked[of e new child s s'] show ?thesis by (simp add: asked_def)
next
  case (RemoveChild e child)
  with assms removeChild_asked[of k e child s s'] show ?thesis by (simp add: asked_def)
next
  case (SetAttribute e key v)
  with assms setAttribute_asked[of k e key v s s'] show ?thesis by (simp add: asked_def)
next
  case (StyleAssign e p v)
  with assms have sa: "style_assign e p v s = Inr s'" by simp
  then obtain ob s1 el where g: "get_style e s = Inr (ob, s1)" and el: "elements s1 e = Some el"
      and s': "s' = proxy_set (node el) ob p v s1"
    by (auto simp: style_assign_def split: sum.splits option.splits)
  from g have same: "requests s1 = requests s" "nodes s1 = nodes s"
      "map_option node (elements s e) = Some (node el)"
    using el by (auto simp: get_style_def wrapped_def split: option.splits jsvalue.splits if_splits)
  have "requests s' = requests s1 +
      (case nodes s1 (node el) of None \<Rightarrow> 0 | Some nd \<Rightarrow> if yogaNode nd = None then 0 else 1)"
    by (auto simp: s' proxy_set_def forward_def split: jsvalue.splits option.splits)
  with same StyleAssign show ?thesis by (auto split: option.splits)
next
  case (SetData e str)
  with assms show ?thesis by (auto simp: set_data_def split: option.splits if_splits)
next
  case (SetInternalTransform e v)
  with assms set_internal_transform_asked[of e v s s'] show ?thesis by (simp add: asked_def)
qed


subsection \<open>The registry of sessions\<close>

lemma perform_keeps:
  "perform k ops s = Inr s' \<Longrightarrow>
     static_scheduleOutput s' = static_scheduleOutput s \<and> instances s' = instances s \<and> inks s' = inks s"
proof (induction ops arbitrary: s)
  case Nil
  then show ?case by simp
next
  case (Cons x xs)
  from Cons.prems obtain s1 where s1: "apply_op k x s = Inr s1" and rest: "perform k xs s1 = Inr s'"
    by (auto split: sum.splits)
  from apply_op_step[OF s1]
  have "static_scheduleOutput s1 = static_scheduleOutput s \<and> instances s1 = instances s \<and> inks s1 = inks s"
    by (auto simp: agree_def asked_def)
  with Cons.IH[OF rest] show ?case by simp
qed

lemma getInstance_cases:
  "getInstance st s = (i, s1) \<Longrightarrow>
     instances s1 st = Some i \<and>
     (\<forall>j. instances s st = Some j \<longrightarrow> i = j \<and> s1 = s)"
  by (auto simp: getInstance_def new_Ink_def dom_createNode_def new_node_def Let_def
      split: option.splits prod.splits)

lemma render_parts:
  assumes "render k ops opts s = Inr (h, s')"
  obtains i s1 ink c s3 s4 where
    "getInstance (inkOptions_stdout opts) s = (i, s1)" "inks s1 i = Some ink"
    "c = fresh s1"
    "s3 = snd (new_PreactElement (rootNode ink)
             (s1\<lparr>static_scheduleOutput := Some (c, i), flush := (flush s1)(c := False),
                  static_root := Some (rootNode ink), fresh := fresh s1 + 1\<rparr>))"
    "perform k ops s3 = Inr s4" "s' = scheduleOutput s4"
    "h = \<lparr>rerender = i, unmount = i, waitUntilExit = i, cleanup = inkOptions_stdout opts, clear = i\<rparr>"
  using assms
  by (auto simp: render_def Let_def split: prod.splits option.splits sum.splits)

lemma render_registry:
  assumes "render k ops opts s = Inr (h, s')"
  shows "instances s' (inkOptions_stdout opts) = Some (rerender h) \<and>
         (\<exists>c. static_scheduleOutput s' = Some (c, rerender h)) \<and>
         h = \<lparr>rerender = rerender h, unmount = rerender h, waitUntilExit = rerender h,
               cleanup = inkOptions_stdout opts, clear = rerender h\<rparr> \<and>
         (instances s (inkOptions_stdout opts) \<noteq> None \<longrightarrow>
            instances s (inkOptions_stdout opts) = Some (rerender h) \<and>
            instances s' = instances s \<and> inks s' = inks s)"
proof -
  from assms obtain i s1 ink c s3 s4 where
    p: "getInstance (inkOptions_stdout opts) s = (i, s1)" "inks s1 i = Some ink"
    "s3 = snd (new_PreactElement (rootNode ink)
             (s1\<lparr>static_scheduleOutput := Some (c, i), flush := (flush s1)(c := False),
                  static_root := Some (rootNode ink), fresh := fresh s1 + 1\<rparr>))"
    "perform k ops s3 = Inr s4" "s' = scheduleOutput s4"
    "h = \<lparr>rerender = i, unmount = i, waitUntilExit = i, cleanup = inkOptions_stdout opts, clear = i\<rparr>"
    by (rule render_parts)
  from p(3) have s3: "static_scheduleOutput s3 = Some (c, i)" "instances s3 = instances s1" "inks s3 = inks s1"
    by (simp_all add: new_PreactElement_def Let_def)
  from perform_keeps[OF p(4)] s3 p(5)
  have s': "static_scheduleOutput s' = Some (c, i)" "instances s' = instances s1" "inks s' = inks s1"
    by simp_all
  from getInstance_cases[OF p(1)] s' p(6) show ?thesis by auto
qed

lemma example_render_eq:
  "example_render = Inr (\<lparr>rerender = 2, unmount = 2, waitUntilExit = 2, cleanup = 0, clear = 2\<rparr>, example)"
  unfolding example_eq unfolding example_render_def
  apply (simp add: eval_defs blank_def)
  apply (auto simp: fun_eq_iff)
  done

lemma second_render_eq:
  "render 4 [] (Stream 1) (run_timeout example) =
     Inr (\<lparr>rerender = 16, unmount = 16, waitUntilExit = 16, cleanup = 1, clear = 16\<rparr>,
          \<lparr>nodes = [0 \<mapsto> blank ''ink-root'' None [5] 1 [], 5 \<mapsto> blank ''ink-box'' (Some 0) [8] 6 [],
               8 \<mapsto> blank ''ink-text'' (Some 5) [11] 9 [], 11 \<mapsto> blank ''#text'' (Some 8) [] 12 ''hi'',
               14 \<mapsto> blank ''ink-root'' None [] 15 []],
      objects = [1 \<mapsto> Map.empty, 6 \<mapsto> Map.empty, 9 \<mapsto> Map.empty, 12 \<mapsto> Map.empty, 15 \<mapsto> Map.empty],
      elements = [4 \<mapsto> \<lparr>node = 0, nodeType = Some 4, style_proxy = None\<rparr>,
                  7 \<mapsto> \<lparr>node = 5, nodeType = Some 3, style_proxy = None\<rparr>,
                  10 \<mapsto> \<lparr>node = 8, nodeType = Some 1, style_proxy = None\<rparr>,
                  13 \<mapsto> \<lparr>node = 11, nodeType = Some 1, style_proxy = None\<rparr>,
                  18 \<mapsto> \<lparr>node = 14, nodeType = Some 4, style_proxy = None\<rparr>],
      domNode2PreactElement = [5 \<mapsto> 7, 8 \<mapsto> 10, 11 \<mapsto> 13],
      inks = [2 \<mapsto> \<lparr>rootNode = 0\<rparr>, 16 \<mapsto> \<lparr>rootNode = 14\<rparr>], instances = [0 \<mapsto> 2, 1 \<mapsto> 16],
      static_scheduleOutput = Some (17, 16), static_root = Some 14,
      flush = (\<lambda>c. False)(17 := True), timers = [(17, 16)],
      trace = [CalculateLayout 2, OnRender 2], requests = 5, fresh = 19\<rparr>)"
  apply (simp add: example_eq run_timeout_def eval_defs blank_def)
  apply (auto simp: fun_eq_iff)
  done

lemma two_sessions_eq:
  "two_sessions =
     \<lparr>nodes = [0 \<mapsto> blank ''ink-root'' None [5] 1 [], 5 \<mapsto> blank ''ink-box'' (Some 0) [8] 6 [],
               8 \<mapsto> blank ''ink-text'' (Some 5) [11] 9 [], 11 \<mapsto> blank ''#text'' (Some 8) [] 12 ''hi'',
               14 \<mapsto> blank ''ink-root'' None [] 15 []],
      objects = [1 \<mapsto> Map.empty, 6 \<mapsto> Map.empty, 9 \<mapsto> Map.empty, 12 \<mapsto> Map.empty, 15 \<mapsto> Map.empty],
      elements = [4 \<mapsto> \<lparr>node = 0, nodeType = Some 4, style_proxy = None\<rparr>,
                  7 \<mapsto> \<lparr>node = 5, nodeType = Some 3, style_proxy = None\<rparr>,
                  10 \<mapsto> \<lparr>node = 8, nodeType = Some 1, style_proxy = None\<rparr>,
                  13 \<mapsto> \<lparr>node = 11, nodeType = Some 1, style_proxy = None\<rparr>,
                  18 \<mapsto> \<lparr>node = 14, nodeType = Some 4, style_proxy = None\<rparr>],
      domNode2PreactElement = [5 \<mapsto> 7, 8 \<mapsto> 10, 11 \<mapsto> 13],
      inks = [2 \<mapsto> \<lparr>rootNode = 0\<rparr>, 16 \<mapsto> \<lparr>rootNode = 14\<rparr>], instances = [0 \<mapsto> 2, 1 \<mapsto> 16],
      static_scheduleOutput = Some (17, 16), static_root = Some 14,
      flush = (\<lambda>c. False), timers = [],
      trace = [CalculateLayout 2, OnRender 2, CalculateLayout 16, OnRender 16], requests = 5,
      fresh = 19\<rparr>"
  unfolding two_sessions_def second_render_eq
  apply (simp add: run_timeout_def)
  apply (auto simp: fun_eq_iff)
  done

subsection \<open>Adapters and the side table\<close>

lemma registered_same:
  assumes "same_adapters s t" and "registered s"
  shows "registered t"
proof -
  from assms(1) have eq: "domNode2PreactElement t = domNode2PreactElement s" "inks t = inks s"
      "fresh t = fresh s" "\<And>e. map_option node (elements t e) = map_option node (elements s e)"
    by (simp_all add: same_adapters_def)
  have "node el < fresh t \<and> (domNode2PreactElement t (node el) = Some e \<or> is_root t (node el))"
    if "elements t e = Some el" for e el
  proof -
    from that eq(4)[of e] obtain el0 where "elements s e = Some el0" "node el0 = node el"
      by (cases "elements s e") auto
    with assms(2) have "node el < fresh s \<and>
        (domNode2PreactElement s (node el) = Some e \<or> is_root s (node el))"
      unfolding registered_def by metis
    then show ?thesis by (simp add: eq is_root_def)
  qed
  moreover from assms(2) have "\<forall>i ink. inks t i = Some ink \<longrightarrow> i < fresh t \<and> rootNode ink < fresh t"
    by (simp add: registered_def eq)
  ultimately show ?thesis by (simp add: registered_def)
qed

lemma same_adapters_refl [simp]: "same_adapters s s"
  by (simp add: same_adapters_def)

lemma same_adapters_frames [simp]:
  "same_adapters s (upd_node n f t) = same_adapters s t"
  "same_adapters s (scheduleOutput t) = same_adapters s t"
  "same_adapters s (dom_removeChildNode p c t) = same_adapters s t"
  "same_adapters s (dom_appendChildNode p c t) = same_adapters s t"
  "same_adapters s (dom_insertBeforeNode p c r t) = same_adapters s t"
  "same_adapters s (dom_setStyle n v t) = same_adapters s t"
  "same_adapters s (dom_setAttribute n key v t) = same_adapters s t"
  "same_adapters s (dom_setTextNodeValue n str t) = same_adapters s t"
  "same_adapters s (proxy_set n ob pr v t) = same_adapters s t"
  by (simp_all add: same_adapters_def)

lemma same_adapters_release: "release k c t = Inr t' \<Longrightarrow> same_adapters s t' = same_adapters s t"
  by (auto simp: release_def same_adapters_def split: option.splits)

lemma same_adapters_set_static: "set_static k n v t = Inr t' \<Longrightarrow> same_adapters s t' = same_adapters s t"
  by (auto simp: set_static_def Let_def split: option.splits if_splits)

lemma same_adapters_get_style: "get_style e s = Inr (ob, t) \<Longrightarrow> same_adapters s t"
  by (auto simp: get_style_def wrapped_def same_adapters_def split: option.splits jsvalue.splits)

lemma same_adapters_run_timeout: "same_adapters s (run_timeout s)"
  by (simp add: run_timeout_def same_adapters_def split: list.splits prod.splits)

lemma appendChild_same: "appendChild e new s = Inr s' \<Longrightarrow> same_adapters s s'"
  by (auto simp: appendChild_def split: option.splits if_splits)

lemma insertBefore_same: "insertBefore e new child s = Inr s' \<Longrightarrow> same_adapters s s'"
  by (auto simp: insertBefore_def split: option.splits if_splits)

lemma removeChild_same:
  assumes "removeChild k e child s = Inr s'"
  shows "same_adapters s s'"
proof -
  from assms obtain p c t where t: "release k c (dom_removeChildNode p c s) = Inr t"
      and s': "s' = scheduleOutput t"
    by (auto simp: removeChild_def split: option.splits if_splits sum.splits)
  from same_adapters_release[OF t, of s] s' show ?thesis by simp
qed

lemma setAttribute_same:
  assumes "setAttribute k e key v s = Inr s'"
  shows "same_adapters s s'"
proof -
  from assms obtain el where el: "elements s e = Some el"
    by (auto simp: setAttribute_def split: option.splits)
  define s2 where "s2 =
     (if key = ''internal_transform''
      then upd_node (node el) (\<lambda>nd. nd\<lparr>internal_transform := v\<rparr>)
             (if key = ''style'' then dom_setStyle (node el) v s else s)
      else (if key = ''style'' then dom_setStyle (node el) v s else s))"
  have a2: "same_adapters s s2" by (simp add: s2_def)
  from el have "setAttribute k e key v s =
      (case (if key = ''internal_static'' then set_static k (node el) v s2 else Inr s2) of
         Inl err \<Rightarrow> Inl err
       | Inr s3 \<Rightarrow> Inr (scheduleOutput (dom_setAttribute (node el) key v s3)))"
    by (simp add: setAttribute_def Let_def s2_def)
  with assms obtain s3 where s3: "(if key = ''internal_static'' then set_static k (node el) v s2 else Inr s2) = Inr s3"
      and s': "s' = scheduleOutput (dom_setAttribute (node el) key v s3)"
    by (auto split: sum.splits)
  from s3 a2 have "same_adapters s s3"
    by (cases "key = ''internal_static''") (simp_all add: same_adapters_set_static)
  with s' show ?thesis by simp
qed

lemma style_assign_same:
  assumes "style_assign e p v s = Inr s'"
  shows "same_adapters s s'"
proof -
  from assms obtain ob s1 n where g: "get_style e s = Inr (ob, s1)" and s': "s' = proxy_set n ob p v s1"
    by (auto simp: style_assign_def split: sum.splits option.splits)
  from g have "same_adapters s s1" by (rule same_adapters_get_style)
  then show ?thesis by (simp add: s')
qed

lemma set_data_same: "set_data e str s = Inr s' \<Longrightarrow> same_adapters s s'"
  by (auto simp: set_data_def split: option.splits if_splits)

lemma set_internal_transform_same: "set_internal_transform e v s = Inr s' \<Longrightarrow> same_adapters s s'"
  by (auto simp: set_internal_transform_def split: option.splits)

lemma registered_manufactured:
  assumes "registered s"
  shows "registered (manufactured name str s)"
proof -
  let ?t = "manufactured name str s"
  have t: "fresh ?t = fresh s + 3" "inks ?t = inks s"
      "domNode2PreactElement ?t = (domNode2PreactElement s)(fresh s \<mapsto> fresh s + 2)"
      "\<And>e. elements ?t e = (if e = fresh s + 2
          then Some \<lparr>node = fresh s, nodeType = nodeTypes name, style_proxy = None\<rparr>
          else elements s e)"
    by (simp_all add: manufactured_def new_node_def new_PreactElement_def Let_def)
  have "node el < fresh ?t \<and> (domNode2PreactElement ?t (node el) = Some e \<or> is_root ?t (node el))"
    if "elements ?t e = Some el" for e el
  proof (cases "e = fresh s + 2")
    case True
    with that show ?thesis by (auto simp: t)
  next
    case False
    with that have "elements s e = Some el" by (simp add: t)
    with assms have "node el < fresh s"
        "domNode2PreactElement s (node el) = Some e \<or> is_root s (node el)"
      by (auto simp: registered_def)
    then show ?thesis by (auto simp: t is_root_def)
  qed
  moreover from assms have "\<forall>i ink. inks ?t i = Some ink \<longrightarrow> i < fresh ?t \<and> rootNode ink < fresh ?t"
    by (fastforce simp: registered_def t)
  ultimately show ?thesis by (simp add: registered_def)
qed

lemma createTextNode_manufactured: "snd (createTextNode str s) = manufactured ''#text'' str s"
  by (simp add: createTextNode_def manufactured_def dom_createTextNode_def split: prod.splits)

lemma createElementNS_manufactured:
  "createElementNS ns name s = Inr (e, s') \<Longrightarrow> s' = manufactured name [] s"
  by (auto simp: createElementNS_def manufactured_def dom_createNode_def Let_def
      split: prod.splits if_splits)

lemma apply_op_registered:
  assumes "registered s" and "apply_op k x s = Inr s'"
  shows "registered s'"
proof (cases x)
  case (CreateTextNode str)
  with assms(2) have "s' = manufactured ''#text'' str s" by (simp add: createTextNode_manufactured)
  with assms(1) show ?thesis by (simp add: registered_manufactured)
next
  case (CreateElementNS ns name)
  with assms(2) obtain e where "createElementNS ns name s = Inr (e, s')"
    by (auto split: sum.splits)
  then have "s' = manufactured name [] s" by (rule createElementNS_manufactured)
  with assms(1) show ?thesis by (simp add: registered_manufactured)
next
  case (AppendChild e new)
  with assms(2) have "same_adapters s s'" by (simp add: appendChild_same)
  with assms(1) show ?thesis by (rule registered_same[rotated])
next
  case (InsertBefore e new child)
  with assms(2) have "same_adapters s s'" by (simp add: insertBefore_same)
  with assms(1) show ?thesis by (rule registered_same[rotated])
next
  case (RemoveChild e child)
  with assms(2) have "same_adapters s s'" by (simp add: removeChild_same)
  with assms(1) show ?thesis by (rule registered_same[rotated])
next
  case (SetAttribute e key v)
  with assms(2) have "same_adapters s s'" by (simp add: setAttribute_same)
  with assms(1) show ?thesis by (rule registered_same[rotated])
next
  case (StyleAssign e p v)
  with assms(2) have "same_adapters s s'" by (simp add: style_assign_same)
  with assms(1) show ?thesis by (rule registered_same[rotated])
next
  case (SetData e str)
  with assms(2) have "same_adapters s s'" by (simp add: set_data_same)
  with assms(1) show ?thesis by (rule registered_same[rotated])
next
  case (SetInternalTransform e v)
  with assms(2) have "same_adapters s s'" by (simp add: set_internal_transform_same)
  with assms(1) show ?thesis by (rule registered_same[rotated])
qed

lemma perform_registered:
  "registered s \<Longrightarrow> perform k ops s = Inr s' \<Longrightarrow> registered s'"
proof (induction ops arbitrary: s)
  case Nil
  then show ?case by simp
next
  case (Cons x xs)
  from Cons.prems(2) obtain s1 where s1: "apply_op k x s = Inr s1" and rest: "perform k xs s1 = Inr s'"
    by (auto split: sum.splits)
  from apply_op_registered[OF Cons.prems(1) s1] rest show ?case by (rule Cons.IH)
qed


lemma registered_getInstance:
  assumes "registered s" and "getInstance st s = (i, s1)"
  shows "registered s1"
proof (cases "instances s st")
  case (Some j)
  with assms show ?thesis by (simp add: getInstance_def)
next
  case None
  with assms(2) have s1: "fresh s1 = fresh s + 3" "elements s1 = elements s"
      "domNode2PreactElement s1 = domNode2PreactElement s"
      "inks s1 = (inks s)(fresh s + 2 \<mapsto> \<lparr>rootNode = fresh s\<rparr>)"
    by (auto simp: getInstance_def new_Ink_def dom_createNode_def new_node_def Let_def)
  have old: "is_root s1 n" if "is_root s n" for n
  proof -
    from that obtain j ink where j: "inks s j = Some ink" "rootNode ink = n"
      by (auto simp: is_root_def)
    with assms(1) have "j < fresh s" unfolding registered_def by metis
    with j have "inks s1 j = Some ink" by (simp add: s1)
    with j(2) show ?thesis unfolding is_root_def by blast
  qed
  have "node el < fresh s1 \<and> (domNode2PreactElement s1 (node el) = Some e \<or> is_root s1 (node el))"
    if "elements s1 e = Some el" for e el
  proof -
    from that assms(1) have "node el < fresh s"
        "domNode2PreactElement s (node el) = Some e \<or> is_root s (node el)"
      by (auto simp: registered_def s1)
    with old show ?thesis by (auto simp: s1)
  qed
  moreover have "j < fresh s1 \<and> rootNode ink < fresh s1" if "inks s1 j = Some ink" for j ink
  proof (cases "j = fresh s + 2")
    case True
    with that show ?thesis by (auto simp: s1)
  next
    case False
    with that have "inks s j = Some ink" by (simp add: s1)
    with assms(1) have "j < fresh s \<and> rootNode ink < fresh s" unfolding registered_def by metis
    then show ?thesis by (simp add: s1)
  qed
  ultimately show ?thesis by (simp add: registered_def)
qed

lemma registered_root_adapter:
  assumes "registered s1" and "inks s1 i = Some ink"
  shows "registered (snd (new_PreactElement (rootNode ink)
           (s1\<lparr>static_scheduleOutput := b, flush := fl, static_root := r, fresh := fresh s1 + 1\<rparr>)))"
proof -
  define t where "t = snd (new_PreactElement (rootNode ink)
           (s1\<lparr>static_scheduleOutput := b, flush := fl, static_root := r, fresh := fresh s1 + 1\<rparr>))"
  have t: "fresh t = fresh s1 + 2" "inks t = inks s1"
      "domNode2PreactElement t = domNode2PreactElement s1"
      "\<And>e. map_option node (elements t e) =
         (if e = fresh s1 + 1 then Some (rootNode ink) else map_option node (elements s1 e))"
    by (simp_all add: t_def new_PreactElement_def Let_def)
  from assms(2) have "is_root t (rootNode ink)" unfolding is_root_def t by blast
  moreover from assms have "rootNode ink < fresh s1" unfolding registered_def by metis
  ultimately have root: "is_root t (rootNode ink)" "rootNode ink < fresh t"
    by (simp_all add: t)
  have "node el < fresh t \<and> (domNode2PreactElement t (node el) = Some e \<or> is_root t (node el))"
    if "elements t e = Some el" for e el
  proof (cases "e = fresh s1 + 1")
    case True
    with that t(4)[of e] have "node el = rootNode ink" by simp
    with root show ?thesis by simp
  next
    case False
    with that t(4)[of e] obtain el0 where el0: "elements s1 e = Some el0" "node el0 = node el"
      by (cases "elements s1 e") auto
    from assms(1) el0(1) have "node el0 < fresh s1 \<and>
        (domNode2PreactElement s1 (node el0) = Some e \<or> is_root s1 (node el0))"
      unfolding registered_def by metis
    with el0(2) show ?thesis by (auto simp: t is_root_def)
  qed
  moreover from assms(1) have "\<forall>j ink. inks t j = Some ink \<longrightarrow> j < fresh t \<and> rootNode ink < fresh t"
    by (fastforce simp: registered_def t)
  ultimately show ?thesis unfolding t_def[symmetric] by (simp add: registered_def)
qed

lemma render_registered:
  assumes "registered s" and "render k ops opts s = Inr (h, s')"
  shows "registered s'"
proof -
  from assms(2) obtain i s1 ink c s3 s4 where
    p: "getInstance (inkOptions_stdout opts) s = (i, s1)" "inks s1 i = Some ink"
    "s3 = snd (new_PreactElement (rootNode ink)
             (s1\<lparr>static_scheduleOutput := Some (c, i), flush := (flush s1)(c := False),
                  static_root := Some (rootNode ink), fresh := fresh s1 + 1\<rparr>))"
    "perform k ops s3 = Inr s4" "s' = scheduleOutput s4"
    by (rule render_parts)
  from registered_getInstance[OF assms(1) p(1)] have "registered s1" .
  from registered_root_adapter[OF this p(2)] have "registered s3" unfolding p(3) .
  from perform_registered[OF this p(4)] have "registered s4" .
  moreover have "same_adapters s4 s'" by (simp add: p(5))
  ultimately show ?thesis by (rule registered_same[rotated])
qed

lemma registered_init: "registered init"
  by (simp add: registered_def init_def)

lemma reachable_registered: "s \<in> reachable \<Longrightarrow> registered s"
proof (induction rule: reachable.induct)
  case start
  show ?case by (rule registered_init)
next
  case (rendered s k ops opts h s')
  then show ?case by (simp add: render_registered)
next
  case (operated s k x s')
  then show ?case by (simp add: apply_op_registered)
next
  case (deferred s)
  then show ?case using same_adapters_run_timeout[of s] by (simp add: registered_same)
qed

subsection \<open>Releasing the handles of a subtree\<close>

lemma tree_ok_reach: "m \<in> reach h n \<Longrightarrow> tree_ok k h n \<Longrightarrow> \<exists>j \<le> k. tree_ok j h m"
proof (induction rule: reach.induct)
  case self
  then show ?case by blast
next
  case (child m nd c)
  then obtain j where j: "j \<le> k" "tree_ok j h m" by blast
  from j(2) child.hyps(2,3) obtain j' where "j = Suc j'" "tree_ok j' h c"
    by (cases j) (auto simp: list_all_iff)
  with j(1) show ?case by (intro exI[of _ j']) simp
qed

lemma tree_ok_no_cycle:
  "tree_ok k h c \<Longrightarrow> m \<in> reach h c \<Longrightarrow> h m = Some nd \<Longrightarrow> c \<notin> set (childNodes nd)"
proof (induction k arbitrary: m nd rule: less_induct)
  case (less k)
  show ?case
  proof
    assume c: "c \<in> set (childNodes nd)"
    from tree_ok_reach[OF less.prems(2,1)] obtain j where j: "j \<le> k" "tree_ok j h m" by blast
    from j(2) less.prems(3) c obtain j' where j': "j = Suc j'" "tree_ok j' h c"
      by (cases j) (auto simp: list_all_iff)
    with j(1) have "j' < k" by simp
    from less.IH[OF this j'(2) less.prems(2,3)] c show False by simp
  qed
qed

lemma freeRecursive_children_cong:
  "\<forall>c \<in> set cs. freeRecursive k h' c = freeRecursive k h c \<Longrightarrow>
   freeRecursive_children k h' cs = freeRecursive_children k h cs"
  by (induction cs) (simp_all split: option.splits)

lemma freeRecursive_cong:
  "\<forall>m \<in> reach h n. release_view h' m = release_view h m \<Longrightarrow> freeRecursive k h' n = freeRecursive k h n"
proof (induction k arbitrary: n)
  case 0
  show ?case by simp
next
  case (Suc k)
  have n: "release_view h' n = release_view h n" using Suc.prems by (simp add: reach.self)
  show ?case
  proof (cases "h n")
    case None
    with n show ?thesis by (simp add: release_view_def)
  next
    case (Some nd)
    with n obtain nd' where nd': "h' n = Some nd'" "childNodes nd' = childNodes nd" "yogaNode nd' = yogaNode nd"
      by (auto simp: release_view_def)
    have "freeRecursive k h' c = freeRecursive k h c" if "c \<in> set (childNodes nd)" for c
    proof (rule Suc.IH)
      show "\<forall>m \<in> reach h c. release_view h' m = release_view h m"
        using Suc.prems reach_step[of h n nd c] Some that by blast
    qed
    then have "freeRecursive_children k h' (childNodes nd) = freeRecursive_children k h (childNodes nd)"
      by (intro freeRecursive_children_cong) blast
    with Some nd' show ?thesis by (simp split: option.splits)
  qed
qed

lemma freeRecursive_children_length:
  "\<forall>c \<in> set cs. \<exists>hs. freeRecursive k h c = Some hs \<and> length hs = length (handles_under k h c) \<and>
       set hs = set (handles_under k h c) \<Longrightarrow>
   \<exists>hs. freeRecursive_children k h cs = Some hs \<and> length hs = length (handles_under_children k h cs) \<and>
       set hs = set (handles_under_children k h cs)"
  by (induction cs) auto

lemma freeRecursive_handles:
  "tree_ok k h n \<Longrightarrow>
   \<exists>hs. freeRecursive k h n = Some hs \<and> length hs = length (handles_under k h n) \<and>
        set hs = set (handles_under k h n)"
proof (induction k arbitrary: n)
  case 0
  then show ?case by simp
next
  case (Suc k)
  then obtain nd where nd: "h n = Some nd" and cs: "list_all (tree_ok k h) (childNodes nd)"
    by (auto split: option.splits)
  from cs Suc.IH have "\<forall>c \<in> set (childNodes nd). \<exists>hs. freeRecursive k h c = Some hs \<and>
      length hs = length (handles_under k h c) \<and> set hs = set (handles_under k h c)"
    by (simp add: list_all_iff)
  from freeRecursive_children_length[OF this] obtain hs where
    "freeRecursive_children k h (childNodes nd) = Some hs"
    "length hs = length (handles_under_children k h (childNodes nd))"
    "set hs = set (handles_under_children k h (childNodes nd))"
    by blast
  with nd show ?case by (auto split: option.splits)
qed

lemma handles_under_children_set:
  "\<forall>c \<in> set cs. set (handles_under k h c) = owned_under h c \<Longrightarrow>
   set (handles_under_children k h cs) = (\<Union>c \<in> set cs. owned_under h c)"
  by (induction cs) auto

lemma owned_under_unfold:
  "h n = Some nd \<Longrightarrow>
   owned_under h n = set_option (yogaNode nd) \<union> (\<Union>c \<in> set (childNodes nd). owned_under h c)"
  unfolding owned_under_def by (auto simp: reach_unfold[of h n nd])

lemma handles_under_owned:
  "tree_ok k h n \<Longrightarrow> set (handles_under k h n) = owned_under h n"
proof (induction k arbitrary: n)
  case 0
  then show ?case by simp
next
  case (Suc k)
  then obtain nd where nd: "h n = Some nd" and cs: "list_all (tree_ok k h) (childNodes nd)"
    by (auto split: option.splits)
  from cs Suc.IH have "\<forall>c \<in> set (childNodes nd). set (handles_under k h c) = owned_under h c"
    by (simp add: list_all_iff)
  then have "set (handles_under_children k h (childNodes nd)) = (\<Union>c \<in> set (childNodes nd). owned_under h c)"
    by (rule handles_under_children_set)
  with nd owned_under_unfold[of h n nd] show ?case by (auto split: option.splits)
qed


lemma nodes_dom_removeChildNode:
  "nodes (dom_removeChildNode p c s) m =
     (if m = p
      then map_option (\<lambda>nd. nd\<lparr>childNodes := remove1 c (childNodes nd)\<rparr>)
             (if m = c then map_option (\<lambda>nd. nd\<lparr>parentNode := None\<rparr>) (nodes s m) else nodes s m)
      else if m = c then map_option (\<lambda>nd. nd\<lparr>parentNode := None\<rparr>) (nodes s m) else nodes s m)"
  by (simp add: dom_removeChildNode_def nodes_upd_node)

lemma release_view_after_detach:
  assumes "tree_ok k (nodes s) c" and "m \<in> reach (nodes s) c"
  shows "release_view (nodes (dom_removeChildNode p c s)) m = release_view (nodes s) m"
proof (cases "nodes s m")
  case None
  then show ?thesis by (auto simp: release_view_def nodes_dom_removeChildNode)
next
  case (Some nd)
  from tree_ok_no_cycle[OF assms Some] have "remove1 c (childNodes nd) = childNodes nd"
    by (simp add: remove1_idem)
  with Some show ?thesis by (auto simp: release_view_def nodes_dom_removeChildNode)
qed

lemma with_handles_eq:
  "with_handles =
     \<lparr>nodes = [0 \<mapsto> blank ''ink-root'' None [5] 1 [],
               5 \<mapsto> (blank ''ink-box'' (Some 0) [8] 6 [])\<lparr>yogaNode := Some 100\<rparr>,
               8 \<mapsto> (blank ''ink-text'' (Some 5) [11] 9 [])\<lparr>yogaNode := Some 101\<rparr>,
               11 \<mapsto> blank ''#text'' (Some 8) [] 12 ''hi''],
      objects = [1 \<mapsto> Map.empty, 6 \<mapsto> Map.empty, 9 \<mapsto> Map.empty, 12 \<mapsto> Map.empty,
                 14 \<mapsto> [''width'' \<mapsto> Value (JString ''10px'')]],
      elements = [4 \<mapsto> \<lparr>node = 0, nodeType = Some 4, style_proxy = None\<rparr>,
                  7 \<mapsto> \<lparr>node = 5, nodeType = Some 3, style_proxy = None\<rparr>,
                  10 \<mapsto> \<lparr>node = 8, nodeType = Some 1, style_proxy = None\<rparr>,
                  13 \<mapsto> \<lparr>node = 11, nodeType = Some 1, style_proxy = None\<rparr>],
      domNode2PreactElement = [5 \<mapsto> 7, 8 \<mapsto> 10, 11 \<mapsto> 13],
      inks = [2 \<mapsto> \<lparr>rootNode = 0\<rparr>], instances = [0 \<mapsto> 2],
      static_scheduleOutput = Some (3, 2), static_root = Some 0,
      flush = (\<lambda>c. False), timers = [], trace = [CalculateLayout 2, OnRender 2], requests = 4,
      fresh = 15\<rparr>"
  unfolding with_handles_def
  apply (simp add: laid_out_eq set_handle_def upd_node_def)
  apply (auto simp: fun_eq_iff)
  done

subsection \<open>The flagged tree, written out\<close>

lemma two_static_eq:
  "two_static =
     \<lparr>nodes = [0 \<mapsto> (blank ''ink-root'' None [5] 1 [])\<lparr>staticNode := Some 8\<rparr>,
               5 \<mapsto> (blank ''ink-box'' (Some 0) [8] 6 [])
                      \<lparr>attributes := [''internal_static'' \<mapsto> JBool True], internal_static := JBool True\<rparr>,
               8 \<mapsto> (blank ''ink-text'' (Some 5) [11] 9 [])
                      \<lparr>attributes := [''internal_static'' \<mapsto> JBool True], internal_static := JBool True\<rparr>,
               11 \<mapsto> blank ''#text'' (Some 8) [] 12 ''hi''],
      objects = [1 \<mapsto> Map.empty, 6 \<mapsto> Map.empty, 9 \<mapsto> Map.empty, 12 \<mapsto> Map.empty],
      elements = [4 \<mapsto> \<lparr>node = 0, nodeType = Some 4, style_proxy = None\<rparr>,
                  7 \<mapsto> \<lparr>node = 5, nodeType = Some 3, style_proxy = None\<rparr>,
                  10 \<mapsto> \<lparr>node = 8, nodeType = Some 1, style_proxy = None\<rparr>,
                  13 \<mapsto> \<lparr>node = 11, nodeType = Some 1, style_proxy = None\<rparr>],
      domNode2PreactElement = [5 \<mapsto> 7, 8 \<mapsto> 10, 11 \<mapsto> 13],
      inks = [2 \<mapsto> \<lparr>rootNode = 0\<rparr>], instances = [0 \<mapsto> 2],
      static_scheduleOutput = Some (3, 2), static_root = Some 0,
      flush = (\<lambda>c. False)(3 := True), timers = [(3, 2)], trace = [], requests = 6,
      fresh = 14\<rparr>"
  apply (simp add: two_static_defs)
  apply (auto simp: fun_eq_iff)
  done


lemma other_session_eq:
  "other_session =
     \<lparr>nodes = [0 \<mapsto> (blank ''ink-root'' None [5] 1 [])\<lparr>staticNode := Some 8\<rparr>,
               5 \<mapsto> (blank ''ink-box'' (Some 0) [8] 6 [])
                      \<lparr>attributes := [''internal_static'' \<mapsto> JBool True], internal_static := JBool True\<rparr>,
               8 \<mapsto> (blank ''ink-text'' (Some 5) [11] 9 [])
                      \<lparr>attributes := [''internal_static'' \<mapsto> JBool True], internal_static := JBool True\<rparr>,
               11 \<mapsto> blank ''#text'' (Some 8) [] 12 ''hi'',
               14 \<mapsto> blank ''ink-root'' None [] 15 []],
      objects = [1 \<mapsto> Map.empty, 6 \<mapsto> Map.empty, 9 \<mapsto> Map.empty, 12 \<mapsto> Map.empty, 15 \<mapsto> Map.empty],
      elements = [4 \<mapsto> \<lparr>node = 0, nodeType = Some 4, style_proxy = None\<rparr>,
                  7 \<mapsto> \<lparr>node = 5, nodeType = Some 3, style_proxy = None\<rparr>,
                  10 \<mapsto> \<lparr>node = 8, nodeType = Some 1, style_proxy = None\<rparr>,
                  13 \<mapsto> \<lparr>node = 11, nodeType = Some 1, style_proxy = None\<rparr>,
                  18 \<mapsto> \<lparr>node = 14, nodeType = Some 4, style_proxy = None\<rparr>],
      domNode2PreactElement = [5 \<mapsto> 7, 8 \<mapsto> 10, 11 \<mapsto> 13],
      inks = [2 \<mapsto> \<lparr>rootNode = 0\<rparr>, 16 \<mapsto> \<lparr>rootNode = 14\<rparr>], instances = [0 \<mapsto> 2, 1 \<mapsto> 16],
      static_scheduleOutput = Some (17, 16), static_root = Some 14,
      flush = (\<lambda>c. False)(3 := True, 17 := True), timers = [(3, 2), (17, 16)],
      trace = [], requests = 7, fresh = 19\<rparr>"
  unfolding other_session_def two_static_eq
  by (simp add: eval_defs blank_def)


subsection \<open>The handles and the nodes of a subtree\<close>

lemma handles_under_nodes:
  "handles_under k h n = List.map_filter (handle_of h) (nodes_under k h n)"
  "handles_under_children k h cs = List.map_filter (handle_of h) (nodes_under_children k h cs)"
proof (induction k h n and k h cs rule: handles_under_handles_under_children.induct)
  case (2 k h n)
  then show ?case
    by (auto simp: handle_of_def map_filter_def split: option.splits)
qed (simp_all add: map_filter_def)

lemma distinct_map_filter:
  "distinct xs \<Longrightarrow> (\<forall>x \<in> set xs. \<forall>y \<in> set xs. f x \<noteq> None \<and> f x = f y \<longrightarrow> x = y) \<Longrightarrow>
   distinct (List.map_filter f xs)"
  by (auto simp: map_filter_def distinct_map inj_on_def)

lemma exclusive_distinct: "exclusive k h n \<Longrightarrow> distinct (handles_under k h n)"
  unfolding exclusive_def handles_under_nodes by (intro distinct_map_filter) blast+

lemma freeRecursive_children_count:
  "\<forall>c \<in> set cs. \<exists>hs. freeRecursive k h c = Some hs \<and>
       (\<forall>y. count_list hs y = count_list (handles_under k h c) y) \<Longrightarrow>
   \<exists>hs. freeRecursive_children k h cs = Some hs \<and>
       (\<forall>y. count_list hs y = count_list (handles_under_children k h cs) y)"
  by (induction cs) auto

lemma freeRecursive_count:
  "tree_ok k h n \<Longrightarrow>
   \<exists>hs. freeRecursive k h n = Some hs \<and> (\<forall>y. count_list hs y = count_list (handles_under k h n) y)"
proof (induction k arbitrary: n)
  case 0
  then show ?case by simp
next
  case (Suc k)
  then obtain nd where nd: "h n = Some nd" and cs: "list_all (tree_ok k h) (childNodes nd)"
    by (auto split: option.splits)
  from cs Suc.IH have "\<forall>c \<in> set (childNodes nd). \<exists>hs. freeRecursive k h c = Some hs \<and>
      (\<forall>y. count_list hs y = count_list (handles_under k h c) y)"
    by (simp add: list_all_iff)
  from freeRecursive_children_count[OF this] obtain hs where
    "freeRecursive_children k h (childNodes nd) = Some hs"
    "\<forall>y. count_list hs y = count_list (handles_under_children k h (childNodes nd)) y"
    by blast
  with nd show ?case by (auto split: option.splits)
qed


lemma headless_eq:
  "headless =
     \<lparr>nodes = [0 \<mapsto> blank ''ink-root'' None [5] 1 [],
               5 \<mapsto> blank ''ink-box'' (Some 0) [8] 6 [],
               8 \<mapsto> (blank ''ink-text'' (Some 5) [11] 9 [])\<lparr>yogaNode := Some 101\<rparr>,
               11 \<mapsto> blank ''#text'' (Some 8) [] 12 ''hi''],
      objects = [1 \<mapsto> Map.empty, 6 \<mapsto> Map.empty, 9 \<mapsto> Map.empty, 12 \<mapsto> Map.empty,
                 14 \<mapsto> [''width'' \<mapsto> Value (JString ''10px'')]],
      elements = [4 \<mapsto> \<lparr>node = 0, nodeType = Some 4, style_proxy = None\<rparr>,
                  7 \<mapsto> \<lparr>node = 5, nodeType = Some 3, style_proxy = None\<rparr>,
                  10 \<mapsto> \<lparr>node = 8, nodeType = Some 1, style_proxy = None\<rparr>,
                  13 \<mapsto> \<lparr>node = 11, nodeType = Some 1, style_proxy = None\<rparr>],
      domNode2PreactElement = [5 \<mapsto> 7, 8 \<mapsto> 10, 11 \<mapsto> 13],
      inks = [2 \<mapsto> \<lparr>rootNode = 0\<rparr>], instances = [0 \<mapsto> 2],
      static_scheduleOutput = Some (3, 2), static_root = Some 0,
      flush = (\<lambda>c. False), timers = [], trace = [CalculateLayout 2, OnRender 2], requests = 4,
      fresh = 15\<rparr>"
  unfolding headless_def
  apply (simp add: with_handles_eq set_handle_def upd_node_def blank_def)
  apply (auto simp: fun_eq_iff)
  done


subsection \<open>The scheduler in every state of a run\<close>

lemma render_unfold:
  "render k ops opts s =
     (case render_begin opts s of
        Inl err \<Rightarrow> Inl err
      | Inr (h, s3) \<Rightarrow>
          (case perform k ops s3 of Inl err \<Rightarrow> Inl err | Inr s4 \<Rightarrow> Inr (h, scheduleOutput s4)))"
  by (simp add: render_def render_begin_def Let_def split: prod.splits option.splits sum.splits)

lemma fresh_manufactured: "fresh (manufactured name str s) = fresh s + 3"
  by (simp add: manufactured_def new_node_def new_PreactElement_def Let_def split: prod.splits)

lemma apply_op_fresh:
  assumes "apply_op k x s = Inr s'"
  shows "fresh s \<le> fresh s'"
proof (cases x)
  case (CreateTextNode str)
  with assms have "s' = manufactured ''#text'' str s" by (simp add: createTextNode_manufactured)
  then show ?thesis by (simp add: fresh_manufactured)
next
  case (CreateElementNS ns name)
  with assms obtain e where "createElementNS ns name s = Inr (e, s')"
    by (auto split: sum.splits)
  then have "s' = manufactured name [] s" by (rule createElementNS_manufactured)
  then show ?thesis by (simp add: fresh_manufactured)
next
  case (AppendChild e new)
  with assms appendChild_same[of e new s s'] show ?thesis by (simp add: same_adapters_def)
next
  case (InsertBefore e new child)
  with assms insertBefore_same[of e new child s s'] show ?thesis by (simp add: same_adapters_def)
next
  case (RemoveChild e child)
  with assms removeChild_same[of k e child s s'] show ?thesis by (simp add: same_adapters_def)
next
  case (SetAttribute e key v)
  with assms setAttribute_same[of k e key v s s'] show ?thesis by (simp add: same_adapters_def)
next
  case (StyleAssign e p v)
  with assms style_assign_same[of e p v s s'] show ?thesis by (simp add: same_adapters_def)
next
  case (SetData e str)
  with assms set_data_same[of e str s s'] show ?thesis by (simp add: same_adapters_def)
next
  case (SetInternalTransform e v)
  with assms set_internal_transform_same[of e v s s'] show ?thesis by (simp add: same_adapters_def)
qed

lemma sched_ok_same:
  assumes "sched_ok s" and "static_scheduleOutput t = static_scheduleOutput s"
      and "timers t = timers s" and "flush t = flush s" and "fresh s \<le> fresh t"
  shows "sched_ok t"
  using assms unfolding sched_ok_def by (auto simp: less_le_trans)

lemma sched_ok_scheduleOutput:
  assumes "sched_ok s"
  shows "sched_ok (scheduleOutput s)"
proof (cases "static_scheduleOutput s")
  case None
  then have "scheduleOutput s = s\<lparr>requests := requests s + 1\<rparr>" by (simp add: scheduleOutput_def)
  with assms show ?thesis by (simp add: sched_ok_def)
next
  case (Some ci)
  obtain c i where ci: "ci = (c, i)" by (cases ci)
  show ?thesis
  proof (cases "flush s c")
    case True
    with Some ci have "scheduleOutput s = s\<lparr>requests := requests s + 1\<rparr>" by (simp add: scheduleOutput_def)
    with assms show ?thesis by (simp add: sched_ok_def)
  next
    case False
    with Some ci have eq: "scheduleOutput s =
        s\<lparr>flush := (flush s)(c := True), timers := timers s @ [(c, i)], requests := requests s + 1\<rparr>"
      by (simp add: scheduleOutput_def)
    from assms Some ci have c: "c < fresh s" by (simp add: sched_ok_def)
    from assms Some ci False show ?thesis
      unfolding eq sched_ok_def by auto
  qed
qed

lemma sched_ok_run_timeout:
  assumes "sched_ok s"
  shows "sched_ok (run_timeout s)"
proof (cases "timers s")
  case Nil
  with assms show ?thesis by (simp add: run_timeout_def)
next
  case (Cons t rest)
  obtain c i where t: "t = (c, i)" by (cases t)
  from Cons t have eq: "run_timeout s =
      s\<lparr>timers := rest, trace := trace s @ [CalculateLayout i, OnRender i], flush := (flush s)(c := False)\<rparr>"
    by (simp add: run_timeout_def)
  from assms Cons t have "length (filter (\<lambda>t. fst t = c) ((c, i) # rest)) = (if flush s c then 1 else 0)"
    unfolding sched_ok_def by metis
  then have none: "filter (\<lambda>t. fst t = c) rest = []" by (simp split: if_splits)
  have cnt: "length (filter (\<lambda>t. fst t = c') rest) = (if flush s c' then 1 else 0)" if "c' \<noteq> c" for c'
  proof -
    from assms Cons t have "length (filter (\<lambda>t. fst t = c') ((c, i) # rest)) = (if flush s c' then 1 else 0)"
      unfolding sched_ok_def by metis
    with that show ?thesis by simp
  qed
  from assms Cons t have rest: "\<forall>t \<in> set rest. fst t < fresh s"
      "\<forall>c i. static_scheduleOutput s = Some (c, i) \<longrightarrow>
          c < fresh s \<and> (\<forall>t \<in> set rest. fst t = c \<longrightarrow> snd t = i)"
    unfolding sched_ok_def by auto
  have c1: "length (filter (\<lambda>t. fst t = c') rest) = (if ((flush s)(c := False)) c' then 1 else 0)" for c'
    using none cnt[of c'] by (cases "c' = c") simp_all
  show ?thesis
    unfolding eq sched_ok_def using c1 rest by simp
qed


lemma getInstance_scheduler:
  "getInstance st s = (i, s1) \<Longrightarrow>
     static_scheduleOutput s1 = static_scheduleOutput s \<and> timers s1 = timers s \<and> flush s1 = flush s \<and>
     fresh s \<le> fresh s1"
  by (auto simp: getInstance_def new_Ink_def dom_createNode_def new_node_def Let_def
      split: option.splits prod.splits)

lemma render_begin_parts:
  assumes "render_begin opts s = Inr (h, s')"
  shows "\<exists>c. static_scheduleOutput s' = Some (c, rerender h) \<and> fresh s \<le> c \<and> c < fresh s' \<and>
             timers s' = timers s \<and> flush s' = (flush s)(c := False)"
proof -
  from assms obtain i s1 ink where
    g: "getInstance (inkOptions_stdout opts) s = (i, s1)" and ink: "inks s1 i = Some ink"
    and s': "s' = snd (new_PreactElement (rootNode ink)
             (s1\<lparr>static_scheduleOutput := Some (fresh s1, i), flush := (flush s1)(fresh s1 := False),
                  static_root := Some (rootNode ink), fresh := fresh s1 + 1\<rparr>))"
    and h: "rerender h = i"
    by (auto simp: render_begin_def Let_def split: prod.splits option.splits)
  from getInstance_scheduler[OF g] s' h show ?thesis
    by (intro exI[of _ "fresh s1"]) (simp add: new_PreactElement_def Let_def)
qed

lemma sched_ok_render_begin:
  assumes "sched_ok s" and "render_begin opts s = Inr (h, s')"
  shows "sched_ok s'"
proof -
  from render_begin_parts[OF assms(2)] obtain c where
    c: "static_scheduleOutput s' = Some (c, rerender h)" "fresh s \<le> c" "c < fresh s'"
       "timers s' = timers s" "flush s' = (flush s)(c := False)"
    by blast
  from assms(1) c(2) have old: "\<forall>t \<in> set (timers s). fst t < c"
    unfolding sched_ok_def by (auto simp: less_le_trans)
  then have none: "filter (\<lambda>t. fst t = c) (timers s) = []"
    by (auto simp: filter_empty_conv)
  have c1: "length (filter (\<lambda>t. fst t = c') (timers s)) = (if ((flush s)(c := False)) c' then 1 else 0)" for c'
    using none assms(1) by (cases "c' = c") (simp_all add: sched_ok_def)
  from old c(3) have c2: "\<forall>t \<in> set (timers s). fst t < fresh s'" by (auto simp: less_trans)
  from old have c3: "\<forall>t \<in> set (timers s). fst t = c \<longrightarrow> snd t = rerender h" by auto
  show ?thesis
    unfolding sched_ok_def using c c1 c2 c3 by simp
qed

lemma sched_ok_apply_op:
  assumes "sched_ok s" and "apply_op k x s = Inr s'"
  shows "sched_ok s'"
proof -
  from apply_op_fresh[OF assms(2)] have f: "fresh s \<le> fresh s'" .
  from apply_op_step[OF assms(2)] show ?thesis
  proof
    assume "agree s s'"
    with assms(1) f show ?thesis by (intro sched_ok_same[of s s']) (simp_all add: agree_def)
  next
    assume a: "asked s s'"
    from sched_ok_scheduleOutput[OF assms(1)] show ?thesis
    proof (rule sched_ok_same)
      show "static_scheduleOutput s' = static_scheduleOutput (scheduleOutput s)"
        using a by (simp add: asked_def)
      show "timers s' = timers (scheduleOutput s)" "flush s' = flush (scheduleOutput s)"
        using a by (simp_all add: asked_def)
      show "fresh (scheduleOutput s) \<le> fresh s'" using f by simp
    qed
  qed
qed

lemma running_sched_ok: "s \<in> running \<Longrightarrow> sched_ok s"
proof (induction rule: running.induct)
  case boot
  show ?case by (simp add: sched_ok_def init_def)
next
  case (entered s opts h s')
  then show ?case by (auto intro: sched_ok_render_begin)
next
  case (stepped s k x s')
  then show ?case by (auto intro: sched_ok_apply_op)
next
  case (scheduled s)
  from scheduled.IH show ?case by (rule sched_ok_scheduleOutput)
next
  case (timed_out s)
  from timed_out.IH show ?case by (rule sched_ok_run_timeout)
next
  case (attached s n y)
  from attached.IH show ?case by (rule sched_ok_same) (simp_all add: set_handle_def)
qed

lemma perform_running: "s \<in> running \<Longrightarrow> perform k ops s = Inr s' \<Longrightarrow> s' \<in> running"
proof (induction ops arbitrary: s)
  case Nil
  then show ?case by simp
next
  case (Cons x xs)
  from Cons.prems(2) obtain s1 where s1: "apply_op k x s = Inr s1" and rest: "perform k xs s1 = Inr s'"
    by (auto split: sum.splits)
  from running.stepped[OF Cons.prems(1) s1] rest show ?case by (rule Cons.IH)
qed

lemma render_running:
  assumes "s \<in> running" and "render k ops opts s = Inr (h, s')"
  shows "s' \<in> running"
proof -
  from assms(2) obtain s3 s4 where b: "render_begin opts s = Inr (h, s3)"
      and p: "perform k ops s3 = Inr s4" and s': "s' = scheduleOutput s4"
    by (auto simp: render_unfold split: sum.splits prod.splits)
  from running.entered[OF assms(1) b] p have "s4 \<in> running" by (rule perform_running)
  then show ?thesis unfolding s' by (rule running.scheduled)
qed

lemma reachable_running: "s \<in> reachable \<Longrightarrow> s \<in> running"
proof (induction rule: reachable.induct)
  case start
  show ?case by (rule running.boot)
next
  case (rendered s k ops opts h s')
  then show ?case by (auto intro: render_running)
next
  case (operated s k x s')
  then show ?case by (auto intro: running.stepped)
next
  case (deferred s)
  from deferred.IH show ?case by (rule running.timed_out)
qed

lemma latest_running: "latest h s \<Longrightarrow> s \<in> running"
proof (induction rule: latest.induct)
  case (returned s0 k ops opts h s)
  then show ?case by (auto intro: render_running)
next
  case (then_stepped h s k x s')
  then show ?case by (auto intro: running.stepped)
next
  case (then_timed_out h s)
  from then_timed_out.IH show ?case by (rule running.timed_out)
next
  case (then_attached h s n y)
  from then_attached.IH show ?case by (rule running.attached)
qed

lemma latest_scheduler: "latest h s \<Longrightarrow> \<exists>c. static_scheduleOutput s = Some (c, rerender h)"
proof (induction rule: latest.induct)
  case (returned s0 k ops opts h s)
  from render_registry[OF returned(2)] show ?case by blast
next
  case (then_stepped h s k x s')
  from apply_op_step[OF then_stepped(2)] have "static_scheduleOutput s' = static_scheduleOutput s"
    by (auto simp: agree_def asked_def)
  with then_stepped.IH show ?case by simp
next
  case (then_timed_out h s)
  then show ?case by (simp add: run_timeout_def split: list.splits prod.splits)
next
  case (then_attached h s n y)
  then show ?case by (simp add: set_handle_def)
qed

lemma apply_op_scheduler:
  assumes "apply_op k x s = Inr s'" and "static_scheduleOutput s = Some (c, i)"
  shows "static_scheduleOutput s' = Some (c, i) \<and>
         filter is_pass (trace s') = filter is_pass (trace s) \<and>
         (requests s' = requests s \<and> timers s' = timers s \<and> flush s' = flush s \<or>
          requests s' = requests s + 1 \<and> flush s' = (flush s)(c := True) \<and>
          timers s' = (if flush s c then timers s else timers s @ [(c, i)]))"
proof -
  from apply_op_step[OF assms(1)] show ?thesis
  proof
    assume "agree s s'"
    with assms(2) show ?thesis by (simp add: agree_def)
  next
    assume a: "asked s s'"
    have "flush (scheduleOutput s) = (flush s)(c := True)"
      using assms(2) by (auto simp: scheduleOutput_def fun_eq_iff)
    moreover have "timers (scheduleOutput s) = (if flush s c then timers s else timers s @ [(c, i)])"
      using assms(2) by (simp add: scheduleOutput_def)
    ultimately show ?thesis using a assms(2) by (simp add: asked_def)
  qed
qed

lemma perform_scheduler:
  "perform k ops s = Inr s' \<Longrightarrow> static_scheduleOutput s = Some (c, i) \<Longrightarrow>
     static_scheduleOutput s' = Some (c, i) \<and>
     filter is_pass (trace s') = filter is_pass (trace s) \<and>
     (requests s' = requests s \<and> timers s' = timers s \<and> flush s' = flush s \<or>
      requests s < requests s' \<and> flush s' = (flush s)(c := True) \<and>
      timers s' = (if flush s c then timers s else timers s @ [(c, i)]))"
proof (induction ops arbitrary: s)
  case Nil
  then show ?case by simp
next
  case (Cons x xs)
  from Cons.prems(1) obtain s1 where s1: "apply_op k x s = Inr s1" and rest: "perform k xs s1 = Inr s'"
    by (auto split: sum.splits)
  from apply_op_scheduler[OF s1 Cons.prems(2)]
  have a: "static_scheduleOutput s1 = Some (c, i)"
      "filter is_pass (trace s1) = filter is_pass (trace s)"
      "requests s1 = requests s \<and> timers s1 = timers s \<and> flush s1 = flush s \<or>
       requests s1 = requests s + 1 \<and> flush s1 = (flush s)(c := True) \<and>
       timers s1 = (if flush s c then timers s else timers s @ [(c, i)])"
    by blast+
  from Cons.IH[OF rest a(1)]
  have b: "static_scheduleOutput s' = Some (c, i)"
      "filter is_pass (trace s') = filter is_pass (trace s1)"
      "requests s' = requests s1 \<and> timers s' = timers s1 \<and> flush s' = flush s1 \<or>
       requests s1 < requests s' \<and> flush s' = (flush s1)(c := True) \<and>
       timers s' = (if flush s1 c then timers s1 else timers s1 @ [(c, i)])"
    by blast+
  from a(3) b(3)
  have c: "requests s' = requests s \<and> timers s' = timers s \<and> flush s' = flush s \<or>
      requests s < requests s' \<and> flush s' = (flush s)(c := True) \<and>
      timers s' = (if flush s c then timers s else timers s @ [(c, i)])"
    by (elim disjE conjE) simp_all
  from a(2) b(2) have "filter is_pass (trace s') = filter is_pass (trace s)" by simp
  with b(1) c show ?case by blast
qed

lemma run_timeout_funpow:
  "timers s = ts \<Longrightarrow>
     trace ((run_timeout ^^ length ts) s) = trace s @ concat (map pass_of ts) \<and>
     timers ((run_timeout ^^ length ts) s) = [] \<and>
     (\<forall>c. flush ((run_timeout ^^ length ts) s) c = (flush s c \<and> c \<notin> fst ` set ts))"
proof (induction ts arbitrary: s)
  case Nil
  then show ?case by simp
next
  case (Cons t rest)
  obtain c i where t: "t = (c, i)" by (cases t)
  from Cons.prems t have r: "timers (run_timeout s) = rest"
      "trace (run_timeout s) = trace s @ [CalculateLayout i, OnRender i]"
      "flush (run_timeout s) = (flush s)(c := False)"
    by (simp_all add: run_timeout_def)
  have "(run_timeout ^^ length (t # rest)) s = (run_timeout ^^ length rest) (run_timeout s)"
    by (simp add: funpow_swap1)
  with Cons.IH[OF r(1)] r(2,3) t show ?case by auto
qed

lemma run_timeouts_trace:
  "trace (run_timeouts s) = trace s @ concat (map pass_of (timers s))"
  "timers (run_timeouts s) = []"
  using run_timeout_funpow[of s "timers s"] by (simp_all add: run_timeouts_def)

lemma run_timeouts_flush: "sched_ok s \<Longrightarrow> \<not> flush (run_timeouts s) c"
proof
  assume ok: "sched_ok s" and f: "flush (run_timeouts s) c"
  from f run_timeout_funpow[of s "timers s"] have fc: "flush s c" and nc: "c \<notin> fst ` set (timers s)"
    by (simp_all add: run_timeouts_def)
  from ok fc have "length (filter (\<lambda>t. fst t = c) (timers s)) = 1" by (simp add: sched_ok_def)
  then have "filter (\<lambda>t. fst t = c) (timers s) \<noteq> []" by auto
  then obtain t where "t \<in> set (timers s)" "fst t = c" by (auto simp: filter_empty_conv)
  with nc show False by auto
qed

lemma sched_ok_pending:
  assumes "sched_ok s" and "static_scheduleOutput s = Some (c, i)" and "flush s c"
  shows "filter (\<lambda>t. fst t = c) (timers s) = [(c, i)]"
proof -
  from assms(1,3) have "length (filter (\<lambda>t. fst t = c) (timers s)) = 1" by (simp add: sched_ok_def)
  then obtain t where t: "filter (\<lambda>t. fst t = c) (timers s) = [t]"
    by (cases "filter (\<lambda>t. fst t = c) (timers s)") auto
  then have "t \<in> set (filter (\<lambda>t. fst t = c) (timers s))" by simp
  then have "t \<in> set (timers s)" "fst t = c" by simp_all
  with assms(1,2) have "snd t = i" by (auto simp: sched_ok_def)
  with \<open>fst t = c\<close> have "t = (c, i)" by (cases t) simp
  with t show ?thesis by simp
qed

lemma example_running: "example \<in> running"
proof -
  have "init \<in> reachable" by (rule reachable.start)
  then have "example \<in> reachable"
    using example_render_eq unfolding example_render_def by (rule reachable.rendered)
  then show ?thesis by (rule reachable_running)
qed

lemma rendered_twice_eq:
  "render 0 [] (Stream 0) example =
     Inr (\<lparr>rerender = 2, unmount = 2, waitUntilExit = 2, cleanup = 0, clear = 2\<rparr>, rendered_twice)"
  "rendered_twice =
     \<lparr>nodes = [0 \<mapsto> blank ''ink-root'' None [5] 1 [], 5 \<mapsto> blank ''ink-box'' (Some 0) [8] 6 [],
               8 \<mapsto> blank ''ink-text'' (Some 5) [11] 9 [], 11 \<mapsto> blank ''#text'' (Some 8) [] 12 ''hi''],
      objects = [1 \<mapsto> Map.empty, 6 \<mapsto> Map.empty, 9 \<mapsto> Map.empty, 12 \<mapsto> Map.empty],
      elements = [4 \<mapsto> \<lparr>node = 0, nodeType = Some 4, style_proxy = None\<rparr>,
                  7 \<mapsto> \<lparr>node = 5, nodeType = Some 3, style_proxy = None\<rparr>,
                  10 \<mapsto> \<lparr>node = 8, nodeType = Some 1, style_proxy = None\<rparr>,
                  13 \<mapsto> \<lparr>node = 11, nodeType = Some 1, style_proxy = None\<rparr>,
                  15 \<mapsto> \<lparr>node = 0, nodeType = Some 4, style_proxy = None\<rparr>],
      domNode2PreactElement = [5 \<mapsto> 7, 8 \<mapsto> 10, 11 \<mapsto> 13],
      inks = [2 \<mapsto> \<lparr>rootNode = 0\<rparr>], instances = [0 \<mapsto> 2],
      static_scheduleOutput = Some (14, 2), static_root = Some 0,
      flush = (\<lambda>c. False)(3 := True, 14 := True), timers = [(3, 2), (14, 2)], trace = [],
      requests = 5, fresh = 16\<rparr>"
  unfolding rendered_twice_def example_eq
  by (simp_all add: eval_defs blank_def)


lemma rendered_twice_running: "rendered_twice \<in> running"
  using example_running rendered_twice_eq(1) by (rule render_running)

section \<open>The claims\<close>

text \<open>
  C7. For a container adapter whose subtree is well formed, \<^verbatim>\<open>contains(self)\<close> is
  true, and for every adapter \<open>x\<close>, \<^verbatim>\<open>contains(x)\<close> is true if and only if the node
  that \<open>x\<close> wraps is the adapter's own node or can be reached from it along child
  pointers. The search returns: with the fuel that the depth of the subtree calls for,
  the result is a value, not \<open>OutOfFuel\<close>.
\<close>

theorem contains_iff_reachable:
  assumes "wrapped e s = Some (el, nd)" and "isContainer nd" and "tree_ok k (nodes s) (node el)"
  shows "contains k e (Some e) s = Inr True \<and>
         (\<forall>x xel. elements s x = Some xel \<longrightarrow>
            contains k e (Some x) s = Inr (node xel \<in> reach (nodes s) (node el)))"
proof -
  from assms(1) have el: "elements s e = Some el"
    by (auto simp: wrapped_def split: option.splits)
  have "contains k e (Some x) s = Inr (node xel \<in> reach (nodes s) (node el))"
    if "elements s x = Some xel" for x xel
    using assms that by (simp add: contains_def search_reach)
  moreover from this[OF el] have "contains k e (Some e) s = Inr True"
    by (simp add: reach.self)
  ultimately show ?thesis by blast
qed

text \<open>
  In the small tree: the root adapter contains itself and the adapter of the text node,
  so node 11 is reachable from node 0; the box adapter does not contain the root
  adapter, so node 0 is not reachable from node 5.
\<close>

theorem contains_iff_reachable_witness:
  "contains 4 4 (Some 4) example = Inr True \<and> contains 4 4 (Some 13) example = Inr True \<and>
   11 \<in> reach (nodes example) 0 \<and> contains 4 7 (Some 4) example = Inr False \<and>
   0 \<notin> reach (nodes example) 5"
proof -
  have root: "wrapped 4 example = Some (\<lparr>node = 0, nodeType = Some 4, style_proxy = None\<rparr>, blank ''ink-root'' None [5] 1 [])"
    by (simp add: example_eq wrapped_def)
  have box: "wrapped 7 example = Some (\<lparr>node = 5, nodeType = Some 3, style_proxy = None\<rparr>, blank ''ink-box'' (Some 0) [8] 6 [])"
    by (simp add: example_eq wrapped_def)
  have c: "isContainer (blank ''ink-root'' None [5] 1 [])" "isContainer (blank ''ink-box'' (Some 0) [8] 6 [])"
    by (simp_all add: isContainer_def blank_def)
  have t: "tree_ok 4 (nodes example) 0" "tree_ok 4 (nodes example) 5"
    by (simp_all add: example_eq blank_def eval_nat_numeral)
  have e: "elements example 13 = Some \<lparr>node = 11, nodeType = Some 1, style_proxy = None\<rparr>"
     "elements example 4 = Some \<lparr>node = 0, nodeType = Some 4, style_proxy = None\<rparr>"
    by (simp_all add: example_eq)
  have v: "contains 4 4 (Some 13) example = Inr True" "contains 4 7 (Some 4) example = Inr False"
    by (simp_all add: contains_def example_eq wrapped_def isContainer_def blank_def eval_nat_numeral)
  from contains_iff_reachable[OF root c(1), of 4] t(1)
  have r1: "contains 4 4 (Some 4) example = Inr True"
    and r2: "\<And>x xel. elements example x = Some xel \<Longrightarrow>
         contains 4 4 (Some x) example = Inr (node xel \<in> reach (nodes example) 0)"
    by simp_all
  from contains_iff_reachable[OF box c(2), of 4] t(2)
  have r3: "\<And>x xel. elements example x = Some xel \<Longrightarrow>
         contains 4 7 (Some x) example = Inr (node xel \<in> reach (nodes example) 5)"
    by simp
  from r2[OF e(1)] v(1) have "11 \<in> reach (nodes example) 0" by simp
  moreover from r3[OF e(2)] v(2) have "0 \<notin> reach (nodes example) 5" by simp
  ultimately show ?thesis using r1 v by simp
qed

text \<open>
  C2, as the code has it. On an adapter whose node is a \<^verbatim>\<open>#text\<close> node, each of
  \<^verbatim>\<open>appendChild\<close>, \<^verbatim>\<open>insertBefore\<close>, \<^verbatim>\<open>removeChild\<close> and \<^verbatim>\<open>contains\<close> throws
  \<^verbatim>\<open>This is not a container\<close>, whatever its arguments.
\<close>

theorem text_node_not_a_container:
  assumes "wrapped e s = Some (el, nd)" and "nodeName nd = ''#text''"
  shows "appendChild e x s = Inl NotAContainer \<and> insertBefore e x r s = Inl NotAContainer \<and>
         removeChild k e x s = Inl NotAContainer \<and> contains k e other s = Inl NotAContainer"
  using assms
  by (simp add: appendChild_def insertBefore_def removeChild_def contains_def isContainer_def)

text \<open>In the small tree, on the adapter 13 of the text node.\<close>

theorem text_node_not_a_container_witness:
  "appendChild 13 10 example = Inl NotAContainer \<and> insertBefore 13 10 None example = Inl NotAContainer \<and>
   removeChild 4 13 10 example = Inl NotAContainer \<and> contains 4 13 (Some 13) example = Inl NotAContainer"
proof -
  have "wrapped 13 example = Some (\<lparr>node = 11, nodeType = Some 1, style_proxy = None\<rparr>, blank ''#text'' (Some 8) [] 12 ''hi'')"
    by (simp add: example_eq wrapped_def)
  moreover have "nodeName (blank ''#text'' (Some 8) [] 12 ''hi'') = ''#text''"
    by (simp add: blank_def)
  ultimately show ?thesis by (rule text_node_not_a_container)
qed

text \<open>
  C2 as stated fails: the adapter 10 of the \<^verbatim>\<open>ink-text\<close> element has the node type
  \<open>TEXT_NODE\<close>, and yet \<open>isContainer\<close> accepts its node, so none of the four operations
  throws on it.
\<close>

theorem text_element_is_a_container:
  "map_option nodeType (elements example 10) = Some (Some TEXT_NODE) \<and>
   appendChild 10 13 example \<noteq> Inl NotAContainer \<and>
   insertBefore 10 13 None example \<noteq> Inl NotAContainer \<and>
   removeChild 4 10 13 example \<noteq> Inl NotAContainer \<and>
   contains 4 10 (Some 13) example = Inr True"
  by (simp add: example_eq TEXT_NODE_def appendChild_def insertBefore_def removeChild_def release_def
      dom_removeChildNode_def upd_node_def
      contains_def wrapped_def isContainer_def blank_def eval_nat_numeral)


text \<open>
  C3, as the code has it. The slot and the search are those of the node that
  \<^verbatim>\<open>PreactElement.root\<close> holds: the root node of the session of the most recent call
  of \<^verbatim>\<open>render\<close>. Let that node hold a well-formed tree. Setting the static flag of a
  node to a false value makes the \<^verbatim>\<open>staticNode\<close> of that root the first node with a
  true flag in the order of a pre-order walk from it that goes below \<^verbatim>\<open>ink-root\<close> and
  \<^verbatim>\<open>ink-box\<close> nodes only, or unsets it when the walk meets no such node. Setting the
  flag to a true value makes it that node with no search (no fuel is used). When \<open>A\<close>
  is the first flagged node of the walk and \<open>B\<close> is another node, setting the flag of
  \<open>B\<close> to false, then true, then false leaves the slot holding \<open>A\<close>. The
  \<^verbatim>\<open>staticNode\<close> of every other node, the root of another session among them, stays
  as it was.
\<close>

theorem static_flag_locator:
  assumes e: "elements s e = Some el" and r: "static_root s = Some r"
      and ok: "tree_ok k (nodes s) r"
  shows "(\<not> truthy v \<longrightarrow>
            (\<exists>s' rn. setAttribute k e ''internal_static'' v s = Inr s' \<and> nodes s' r = Some rn \<and>
               staticNode rn = find (is_static (nodes s')) (visit_order k (nodes s') r))) \<and>
         (truthy v \<longrightarrow>
            (\<exists>s' rn. setAttribute 0 e ''internal_static'' v s = Inr s' \<and> nodes s' r = Some rn \<and>
               staticNode rn = Some (node el))) \<and>
         (visit_order k (nodes s) r = xs @ A # ys \<and> (\<forall>x \<in> set xs. \<not> is_static (nodes s) x) \<and>
          is_static (nodes s) A \<and> A \<noteq> node el \<longrightarrow>
            (\<exists>s' rn. perform k [SetAttribute e ''internal_static'' (JBool False),
                                SetAttribute e ''internal_static'' (JBool True),
                                SetAttribute e ''internal_static'' (JBool False)] s = Inr s' \<and>
               nodes s' r = Some rn \<and> staticNode rn = Some A)) \<and>
         (\<forall>s' m. setAttribute k e ''internal_static'' v s = Inr s' \<and> m \<noteq> r \<longrightarrow>
            map_option staticNode (nodes s' m) = map_option staticNode (nodes s m))"
proof (intro conjI impI)
  from ok obtain rn0 where rn0: "nodes s r = Some rn0"
    by (cases k) (auto split: option.splits)
  {
    assume falsy: "\<not> truthy v"
    let ?h = "flagged (node el) v (nodes s)"
    from ok have "tree_ok k ?h r" by (simp add: tree_ok_shape[of ?h "nodes s"])
    then have "searchStatic k ?h r = Some (find (is_static ?h) (visit_order k ?h r))"
      by (rule searchStatic_find)
    with falsy have "if truthy v then find (is_static ?h) (visit_order k ?h r) = Some (node el)
        else searchStatic k ?h r = Some (find (is_static ?h) (visit_order k ?h r))"
      by simp
    from setAttribute_static[OF e r rn0 this]
    obtain s' rn where s': "setAttribute k e ''internal_static'' v s = Inr s'" "nodes s' r = Some rn"
        "staticNode rn = find (is_static ?h) (visit_order k ?h r)"
        "\<forall>m. shape (nodes s') m = shape (nodes s) m"
        "\<forall>m. is_static (nodes s') m = is_static ?h m"
      by blast
    from s'(4) have "visit_order k (nodes s') r = visit_order k ?h r"
      by (simp add: visit_order_shape[of "nodes s'" "nodes s"] visit_order_shape[of ?h "nodes s"])
    moreover from s'(5) have "is_static (nodes s') = is_static ?h" by (simp add: fun_eq_iff)
    ultimately show "\<exists>s' rn. setAttribute k e ''internal_static'' v s = Inr s' \<and> nodes s' r = Some rn \<and>
               staticNode rn = find (is_static (nodes s')) (visit_order k (nodes s') r)"
      using s'(1,2,3) by simp
  }
  {
    assume "truthy v"
    then have "if truthy v then Some (node el) = Some (node el)
        else searchStatic 0 (flagged (node el) v (nodes s)) r = Some (Some (node el))"
      by simp
    from setAttribute_static[OF e r rn0 this]
    show "\<exists>s' rn. setAttribute 0 e ''internal_static'' v s = Inr s' \<and> nodes s' r = Some rn \<and>
               staticNode rn = Some (node el)"
      by blast
  }
  {
    assume hyp: "visit_order k (nodes s) r = xs @ A # ys \<and> (\<forall>x \<in> set xs. \<not> is_static (nodes s) x) \<and>
          is_static (nodes s) A \<and> A \<noteq> node el"
    let ?B = "node el"
    let ?h1 = "flagged ?B (JBool False) (nodes s)"
    from ok have "tree_ok k ?h1 r" by (simp add: tree_ok_shape[of ?h1 "nodes s"])
    then have "searchStatic k ?h1 r = Some (find (is_static ?h1) (visit_order k ?h1 r))"
      by (rule searchStatic_find)
    then have "if truthy (JBool False) then find (is_static ?h1) (visit_order k ?h1 r) = Some ?B
        else searchStatic k ?h1 r = Some (find (is_static ?h1) (visit_order k ?h1 r))"
      by simp
    from setAttribute_static[OF e r rn0 this]
    obtain s1 rn1 where s1: "setAttribute k e ''internal_static'' (JBool False) s = Inr s1"
        "nodes s1 r = Some rn1" "\<forall>m. shape (nodes s1) m = shape (nodes s) m"
        "\<forall>m. is_static (nodes s1) m = is_static ?h1 m"
        "elements s1 = elements s" "static_root s1 = static_root s"
      by blast
    from s1(5) e have e1: "elements s1 e = Some el" by simp
    from s1(6) r have r1: "static_root s1 = Some r" by simp
    have "if truthy (JBool True) then Some ?B = Some ?B
        else searchStatic k (flagged ?B (JBool True) (nodes s1)) r = Some (Some ?B)"
      by simp
    from setAttribute_static[OF e1 r1 s1(2) this]
    obtain s2 rn2 where s2: "setAttribute k e ''internal_static'' (JBool True) s1 = Inr s2"
        "nodes s2 r = Some rn2" "\<forall>m. shape (nodes s2) m = shape (nodes s1) m"
        "\<forall>m. is_static (nodes s2) m = is_static (flagged ?B (JBool True) (nodes s1)) m"
        "elements s2 = elements s1" "static_root s2 = static_root s1"
      by blast
    from s2(5) e1 have e2: "elements s2 e = Some el" by simp
    from s2(6) r1 have r2: "static_root s2 = Some r" by simp
    let ?h3 = "flagged ?B (JBool False) (nodes s2)"
    have sh: "shape (nodes s2) m = shape (nodes s) m" for m
      using s1(3) s2(3) by simp
    then have vo: "visit_order k ?h3 r = xs @ A # ys"
      using hyp by (simp add: visit_order_shape[of ?h3 "nodes s"])
    from ok sh have "tree_ok k ?h3 r" by (simp add: tree_ok_shape[of ?h3 "nodes s"])
    then have srch: "searchStatic k ?h3 r = Some (find (is_static ?h3) (visit_order k ?h3 r))"
      by (rule searchStatic_find)
    have other: "is_static ?h3 m = is_static (nodes s) m" if "m \<noteq> ?B" for m
      using that s1(4) s2(4) by (simp add: is_static_flagged)
    have self: "\<not> is_static ?h3 ?B"
      by (simp add: is_static_flagged is_static_None)
    have "\<not> is_static ?h3 x" if "x \<in> set xs" for x
      using that hyp other[of x] self by (cases "x = ?B") simp_all
    then have "\<forall>x \<in> set xs. \<not> is_static ?h3 x" by blast
    moreover have "is_static ?h3 A" using hyp other by simp
    ultimately have "find (is_static ?h3) (xs @ A # ys) = Some A"
      by (rule find_first)
    with srch vo have "if truthy (JBool False) then Some A = Some ?B
        else searchStatic k ?h3 r = Some (Some A)"
      by simp
    from setAttribute_static[OF e2 r2 s2(2) this]
    obtain s3 rn3 where s3: "setAttribute k e ''internal_static'' (JBool False) s2 = Inr s3"
        "nodes s3 r = Some rn3" "staticNode rn3 = Some A"
      by blast
    from s1(1) s2(1) s3
    show "\<exists>s' rn. perform k [SetAttribute e ''internal_static'' (JBool False),
                                SetAttribute e ''internal_static'' (JBool True),
                                SetAttribute e ''internal_static'' (JBool False)] s = Inr s' \<and>
               nodes s' r = Some rn \<and> staticNode rn = Some A"
      by simp
  }
  show "\<forall>s' m. setAttribute k e ''internal_static'' v s = Inr s' \<and> m \<noteq> r \<longrightarrow>
            map_option staticNode (nodes s' m) = map_option staticNode (nodes s m)"
    using e r
    by (auto simp: setAttribute_def set_static_def Let_def nodes_upd_node nodes_dom_setAttribute
          option.map_comp comp_def split: if_splits option.splits)
qed

text \<open>
  In the small tree with the box \<open>A = 5\<close> and the text element \<open>B = 8\<close> flagged, the
  slot holds \<open>B\<close>, flagged last; after the three assignments to \<open>B\<close> it holds \<open>A\<close>; the
  slot of the box is not touched.
\<close>

theorem static_flag_locator_witness:
  "map_option staticNode (nodes two_static 0) = Some (Some 8) \<and>
   (\<exists>s' rn. perform 4 [SetAttribute 10 ''internal_static'' (JBool False),
                       SetAttribute 10 ''internal_static'' (JBool True),
                       SetAttribute 10 ''internal_static'' (JBool False)] two_static = Inr s' \<and>
       nodes s' 0 = Some rn \<and> staticNode rn = Some 5) \<and>
   (\<exists>s' rn. setAttribute 4 10 ''internal_static'' (JBool False) two_static = Inr s' \<and>
       nodes s' 0 = Some rn \<and>
       staticNode rn = find (is_static (nodes s')) (visit_order 4 (nodes s') 0)) \<and>
   (\<exists>s' rn. setAttribute 0 10 ''internal_static'' (JBool True) two_static = Inr s' \<and>
       nodes s' 0 = Some rn \<and> staticNode rn = Some 8) \<and>
   (\<exists>s'. setAttribute 4 10 ''internal_static'' (JBool False) two_static = Inr s' \<and>
       map_option staticNode (nodes s' 5) = map_option staticNode (nodes two_static 5))"
proof -
  note f = two_static_facts
  have ne: "(5::nat) \<noteq> node \<lparr>node = 8, nodeType = Some 1, style_proxy = None\<rparr>" by simp
  from static_flag_locator[OF f(1,2,3), of "JBool False" "[0]" 5 "[8]"] f(4,5,6) ne
  have a: "\<exists>s' rn. perform 4 [SetAttribute 10 ''internal_static'' (JBool False),
                       SetAttribute 10 ''internal_static'' (JBool True),
                       SetAttribute 10 ''internal_static'' (JBool False)] two_static = Inr s' \<and>
       nodes s' 0 = Some rn \<and> staticNode rn = Some 5"
    and b: "\<exists>s' rn. setAttribute 4 10 ''internal_static'' (JBool False) two_static = Inr s' \<and>
       nodes s' 0 = Some rn \<and>
       staticNode rn = find (is_static (nodes s')) (visit_order 4 (nodes s') 0)"
    by simp_all
  from static_flag_locator[OF f(1,2,3), of "JBool True"]
  have c: "\<exists>s' rn. setAttribute 0 10 ''internal_static'' (JBool True) two_static = Inr s' \<and>
       nodes s' 0 = Some rn \<and> staticNode rn = Some 8"
    by simp
  from static_flag_locator[OF f(1,2,3), of "JBool False" "[0]" 5 "[8]"]
  have "\<forall>s' m. setAttribute 4 10 ''internal_static'' (JBool False) two_static = Inr s' \<and> m \<noteq> 0 \<longrightarrow>
            map_option staticNode (nodes s' m) = map_option staticNode (nodes two_static m)"
    by blast
  with b have d: "\<exists>s'. setAttribute 4 10 ''internal_static'' (JBool False) two_static = Inr s' \<and>
       map_option staticNode (nodes s' 5) = map_option staticNode (nodes two_static 5)"
    by auto
  from a b c d f(7) show ?thesis by blast
qed

text \<open>
  C3 as stated fails: the box \<open>A = 5\<close> and the text element \<open>B = 8\<close> are flagged in the
  tree of session 2, whose root is node 0, and \<^verbatim>\<open>render\<close> is then called for another
  stream. \<^verbatim>\<open>PreactElement.root\<close> is now node 14, the root of the new session. Setting
  the flag of \<open>B\<close> to false, then true, then false leaves the slot of root 0 at \<open>B\<close>,
  which it held before, although \<open>A\<close> is the first flagged node of the walk from root
  0; the slot written is that of node 14, which ends unset. Setting the flag of \<open>B\<close> to
  false alone leaves the slot of root 0 at \<open>B\<close> too, and setting it to true writes \<open>B\<close>
  into the slot of node 14, whose tree does not hold \<open>B\<close>.
\<close>

theorem static_slot_of_another_session:
  "instances other_session 0 = Some 2 \<and> map_option rootNode (inks other_session 2) = Some 0 \<and>
   visit_order 4 (nodes other_session) 0 = [0, 5, 8] \<and>
   \<not> is_static (nodes other_session) 0 \<and> is_static (nodes other_session) 5 \<and>
   is_static (nodes other_session) 8 \<and>
   map_option node (elements other_session 10) = Some 8 \<and>
   static_root other_session = Some 14 \<and>
   slot_of (perform 4 [SetAttribute 10 ''internal_static'' (JBool False),
                       SetAttribute 10 ''internal_static'' (JBool True),
                       SetAttribute 10 ''internal_static'' (JBool False)] other_session) 0
     = Some (Some 8) \<and>
   slot_of (perform 4 [SetAttribute 10 ''internal_static'' (JBool False),
                       SetAttribute 10 ''internal_static'' (JBool True),
                       SetAttribute 10 ''internal_static'' (JBool False)] other_session) 14
     = Some None \<and>
   slot_of (setAttribute 4 10 ''internal_static'' (JBool False) other_session) 0 = Some (Some 8) \<and>
   slot_of (setAttribute 4 10 ''internal_static'' (JBool True) other_session) 14 = Some (Some 8)"
  by (simp add: other_session_eq slot_of_def is_static_def setAttribute_def set_static_def upd_node_def
      dom_setAttribute_def scheduleOutput_def blank_def Let_def eval_nat_numeral)

text \<open>
  C4. The claim holds where the value is a run of digits followed by \<^verbatim>\<open>px\<close> and where
  the value does not start that way (\<open>proxy_set_digits_px\<close>, \<open>proxy_set_forwards_stored\<close>
  and the last two lines below). It fails on a string that goes on after the \<^verbatim>\<open>px\<close>:
  the test \<^verbatim>\<open>/^\d+px/\<close> has no end anchor, so \<^verbatim>\<open>'10px solid'\<close> is not stored
  unchanged but as the Number \<^verbatim>\<open>+'10 solid'\<close>, and \<^verbatim>\<open>'1px0'\<close> as the number 10.
\<close>

theorem px_prefix_is_converted:
  "stored_style (style_assign 7 ''width'' (JString ''10px solid'') laid_out) 6 ''width''
     = Some (NumberOf ''10 solid'') \<and>
   stored_style (style_assign 7 ''width'' (JString ''1px0'') laid_out) 6 ''width''
     = Some (Value (JNumber (Finite 10))) \<and>
   stored_style (style_assign 7 ''width'' (JString ''10px'') laid_out) 6 ''width''
     = Some (Value (JNumber (Finite 10))) \<and>
   stored_style (style_assign 7 ''width'' (JString ''10%'') laid_out) 6 ''width''
     = Some (Value (JString ''10%''))"
  by (simp add: laid_out_eq style_defs)

text \<open>
  C5, as the code has it. \<^verbatim>\<open>setAttribute(key, value)\<close> on an adapter returns, and
  afterwards the node has \<open>value\<close> under \<open>key\<close> among its attributes, whatever the key;
  for the key \<^verbatim>\<open>style\<close> the value is the node's style as it was given, for
  \<^verbatim>\<open>internal_transform\<close> its transform, for \<^verbatim>\<open>internal_static\<close> its static flag,
  with \<^verbatim>\<open>root.staticNode\<close> set by the locator. No style object changes, no Proxy is
  made and nothing is forwarded to the layout engine. \<^verbatim>\<open>scheduleOutput\<close> is called
  once, after the rest.
\<close>

theorem setAttribute_routes:
  assumes w: "wrapped e s = Some (el, nd)"
      and st: "key = ''internal_static'' \<longrightarrow> static_root s = Some r \<and> tree_ok k (nodes s) r"
  shows "\<exists>s' nd'. setAttribute k e key v s = Inr s' \<and> nodes s' (node el) = Some nd' \<and>
           attributes nd' = (attributes nd)(key \<mapsto> v) \<and>
           style nd' = (if key = ''style'' then v else style nd) \<and>
           internal_transform nd' = (if key = ''internal_transform'' then v else internal_transform nd) \<and>
           internal_static nd' = (if key = ''internal_static'' then v else internal_static nd) \<and>
           (key = ''internal_static'' \<longrightarrow>
              (\<exists>rn. nodes s' r = Some rn \<and>
                 staticNode rn = (if truthy v then Some (node el)
                                  else find (is_static (nodes s')) (visit_order k (nodes s') r)))) \<and>
           objects s' = objects s \<and> elements s' = elements s \<and> trace s' = trace s \<and>
           requests s' = requests s + 1 \<and>
           timers s' = timers (scheduleOutput s) \<and> flush s' = flush (scheduleOutput s)"
proof -
  from w have e: "elements s e = Some el" and nd: "nodes s (node el) = Some nd"
    by (auto simp: wrapped_def split: option.splits)
  let ?n = "node el"
  let ?h = "flagged ?n v (nodes s)"
  let ?found = "if truthy v then Some ?n else find (is_static ?h) (visit_order k ?h r)"
  define t where "t =
     (if key = ''internal_static''
      then upd_node r (\<lambda>nd. nd\<lparr>staticNode := ?found\<rparr>) (upd_node ?n (\<lambda>nd. nd\<lparr>internal_static := v\<rparr>) s)
      else if key = ''style'' then dom_setStyle ?n v s
      else if key = ''internal_transform'' then upd_node ?n (\<lambda>nd. nd\<lparr>internal_transform := v\<rparr>) s
      else s)"
  define s' where "s' = scheduleOutput (dom_setAttribute ?n key v t)"
  have res: "setAttribute k e key v s = Inr s'"
  proof (cases "key = ''internal_static''")
    case False
    with e show ?thesis by (simp add: setAttribute_def Let_def s'_def t_def)
  next
    case True
    with st have r: "static_root s = Some r" and ok: "tree_ok k (nodes s) r" by simp_all
    from ok have "tree_ok k ?h r" by (simp add: tree_ok_shape[of ?h "nodes s"])
    then have srch: "searchStatic k ?h r = Some (find (is_static ?h) (visit_order k ?h r))"
      by (rule searchStatic_find)
    have h1: "nodes (upd_node ?n (\<lambda>nd. nd\<lparr>internal_static := v\<rparr>) s) = ?h"
      by (rule ext) (simp add: nodes_upd_node flagged_def)
    from True e r srch show ?thesis
      by (simp add: setAttribute_def set_static_def Let_def h1 s'_def t_def)
  qed
  have frame: "objects t = objects s" "elements t = elements s" "trace t = trace s"
      "requests t = requests s" "static_scheduleOutput t = static_scheduleOutput s"
      "timers t = timers s" "flush t = flush s"
    by (simp_all add: t_def)
  have frame': "objects s' = objects s" "elements s' = elements s" "trace s' = trace s"
      "requests s' = requests s + 1"
    by (simp_all add: s'_def frame)
  have sched: "timers s' = timers (scheduleOutput s)" "flush s' = flush (scheduleOutput s)"
    unfolding s'_def by (rule scheduleOutput_same; simp add: frame)+
  have tn: "\<exists>nd1. nodes t ?n = Some nd1 \<and> attributes nd1 = attributes nd \<and>
      style nd1 = (if key = ''style'' then v else style nd) \<and>
      internal_transform nd1 = (if key = ''internal_transform'' then v else internal_transform nd) \<and>
      internal_static nd1 = (if key = ''internal_static'' then v else internal_static nd)"
    using nd by (auto simp: t_def nodes_upd_node nodes_dom_setStyle)
  then obtain nd1 where nd1: "nodes t ?n = Some nd1" "attributes nd1 = attributes nd"
      "style nd1 = (if key = ''style'' then v else style nd)"
      "internal_transform nd1 = (if key = ''internal_transform'' then v else internal_transform nd)"
      "internal_static nd1 = (if key = ''internal_static'' then v else internal_static nd)"
    by blast
  define nd' where "nd' = nd1\<lparr>attributes := (attributes nd1)(key \<mapsto> v)\<rparr>"
  have me: "nodes s' ?n = Some nd'"
    by (simp add: s'_def nodes_dom_setAttribute nd1(1) nd'_def)
  have fields: "attributes nd' = (attributes nd)(key \<mapsto> v)"
      "style nd' = (if key = ''style'' then v else style nd)"
      "internal_transform nd' = (if key = ''internal_transform'' then v else internal_transform nd)"
      "internal_static nd' = (if key = ''internal_static'' then v else internal_static nd)"
    using nd1(2-5) by (simp_all add: nd'_def)
  have root: "\<exists>rn. nodes s' r = Some rn \<and>
        staticNode rn = (if truthy v then Some ?n
                         else find (is_static (nodes s')) (visit_order k (nodes s') r))"
    if True: "key = ''internal_static''"
  proof -
    from True st have ok: "tree_ok k (nodes s) r" by simp
    from ok obtain rn0 where rn0: "nodes s r = Some rn0"
      by (cases k) (auto split: option.splits)
    have sh: "shape (nodes s') m = shape (nodes s) m" for m
      by (simp add: True s'_def t_def shape_def nodes_upd_node nodes_dom_setAttribute option.map_comp comp_def)
    have ist: "is_static (nodes s') = is_static ?h"
      by (rule ext)
         (auto simp: True s'_def t_def is_static_def flagged_def nodes_upd_node nodes_dom_setAttribute
               split: option.splits)
    have vo: "visit_order k (nodes s') r = visit_order k ?h r"
      using sh by (simp add: visit_order_shape[of "nodes s'" "nodes s"] visit_order_shape[of ?h "nodes s"])
    have "\<exists>rn. nodes s' r = Some rn \<and> staticNode rn = ?found"
      using rn0 by (auto simp: True s'_def t_def nodes_upd_node nodes_dom_setAttribute)
    then show ?thesis unfolding ist vo .
  qed
  show ?thesis
    apply (rule exI[of _ s'])
    apply (rule exI[of _ nd'])
    apply (intro conjI impI)
    apply (rule res me fields frame' sched)+
    apply (erule root)
    apply (rule res me fields frame' sched)+
    done
qed


text \<open>On the box of the small tree, for the keys \<^verbatim>\<open>internal_static\<close> and \<^verbatim>\<open>style\<close>.\<close>

theorem setAttribute_routes_witness:
  "(\<exists>s' nd'. setAttribute 4 7 ''internal_static'' (JBool True) laid_out = Inr s' \<and>
      nodes s' 5 = Some nd' \<and> attributes nd' ''internal_static'' = Some (JBool True) \<and>
      internal_static nd' = JBool True \<and>
      (\<exists>rn. nodes s' 0 = Some rn \<and> staticNode rn = Some 5) \<and>
      requests s' = 5 \<and> timers s' = [(3, 2)]) \<and>
   (\<exists>s' nd'. setAttribute 4 7 ''style'' (JObject 14) laid_out = Inr s' \<and>
      nodes s' 5 = Some nd' \<and> style nd' = JObject 14 \<and>
      objects s' = objects laid_out \<and> trace s' = trace laid_out \<and> requests s' = 5)"
proof -
  have w: "wrapped 7 laid_out =
      Some (\<lparr>node = 5, nodeType = Some 3, style_proxy = None\<rparr>,
            (blank ''ink-box'' (Some 0) [8] 6 [])\<lparr>yogaNode := Some 100\<rparr>)"
    by (simp add: laid_out_eq wrapped_def)
  have st: "''internal_static'' = ''internal_static'' \<longrightarrow>
      static_root laid_out = Some 0 \<and> tree_ok 4 (nodes laid_out) 0"
    by (simp add: laid_out_eq blank_def eval_nat_numeral)
  have st': "''style'' = ''internal_static'' \<longrightarrow>
      static_root laid_out = Some 0 \<and> tree_ok 4 (nodes laid_out) 0"
    by simp
  have sch: "timers (scheduleOutput laid_out) = [(3, 2)]" "requests laid_out = 4"
    by (simp_all add: laid_out_eq scheduleOutput_def)
  from setAttribute_routes[OF w st, of "JBool True"] sch
  have a: "\<exists>s' nd'. setAttribute 4 7 ''internal_static'' (JBool True) laid_out = Inr s' \<and>
      nodes s' 5 = Some nd' \<and> attributes nd' ''internal_static'' = Some (JBool True) \<and>
      internal_static nd' = JBool True \<and>
      (\<exists>rn. nodes s' 0 = Some rn \<and> staticNode rn = Some 5) \<and>
      requests s' = 5 \<and> timers s' = [(3, 2)]"
    by (elim exE conjE) (simp add: blank_def)
  from setAttribute_routes[OF w st', of "JObject 14"] sch
  have b: "\<exists>s' nd'. setAttribute 4 7 ''style'' (JObject 14) laid_out = Inr s' \<and>
      nodes s' 5 = Some nd' \<and> style nd' = JObject 14 \<and>
      objects s' = objects laid_out \<and> trace s' = trace laid_out \<and> requests s' = 5"
    by (elim exE conjE) simp
  from a b show ?thesis by blast
qed


text \<open>
  C5 as stated fails: \<^verbatim>\<open>setAttribute('style', {width: '10px'})\<close> on the box, which has a
  layout handle, leaves \<^verbatim>\<open>'10px'\<close> as it is and records no call of \<^verbatim>\<open>applyStyle\<close>,
  whereas the assignment \<^verbatim>\<open>style.width = '10px'\<close> through the interceptor stores the
  number 10 and forwards the mapping to the layout engine.
\<close>

theorem setAttribute_style_bypasses_interceptor:
  "node_style (setAttribute 4 7 ''style'' (JObject 14) laid_out) 5 = Some (JObject 14) \<and>
   stored_style (setAttribute 4 7 ''style'' (JObject 14) laid_out) 14 ''width''
     = Some (Value (JString ''10px'')) \<and>
   trace_of (setAttribute 4 7 ''style'' (JObject 14) laid_out) = Some (trace laid_out) \<and>
   stored_style (style_assign 7 ''width'' (JString ''10px'') laid_out) 6 ''width''
     = Some (Value (JNumber (Finite 10))) \<and>
   trace_of (style_assign 7 ''width'' (JString ''10px'') laid_out)
     = Some (trace laid_out @ [ApplyStyle 100 [''width'' \<mapsto> Value (JNumber (Finite 10))]])"
  by (simp add: laid_out_eq style_defs trace_of_def node_style_def setAttribute_def dom_setStyle_def
      dom_setAttribute_def upd_node_def)

text \<open>
  C1, as the code has it. Take a state of a run in which \<^verbatim>\<open>render\<close> has bound the
  scheduler, to the closure \<open>c\<close> of its call and the session \<open>i\<close>, and a sequence of
  operations carried out without yielding, of which at least one called
  \<^verbatim>\<open>scheduleOutput\<close>. The sequence sets at most one timeout: the timeouts pending
  afterwards are those pending before, followed by one of \<open>c\<close> for \<open>i\<close> unless one of
  \<open>c\<close> was pending already. Exactly one timeout of \<open>c\<close> is pending afterwards, and no
  pass ran during the sequence. When the pending timeouts have run, each has recomputed
  the layout and painted once for its session, none is pending and no flag is set. If
  no timeout of an earlier call of \<^verbatim>\<open>render\<close> was pending before the sequence, that
  is exactly one pass, of the session \<open>i\<close>. By \<open>op_requests\<close>, \<^verbatim>\<open>appendChild\<close>,
  \<^verbatim>\<open>insertBefore\<close>, \<^verbatim>\<open>removeChild\<close> and \<^verbatim>\<open>setAttribute\<close> call \<^verbatim>\<open>scheduleOutput\<close>
  whenever they return, a style assignment does if the node has a layout handle, and a
  text assignment does on a \<^verbatim>\<open>#text\<close> node.
\<close>

theorem one_pass_per_burst:
  assumes "s \<in> running" and "static_scheduleOutput s = Some (c, i)"
      and "perform k ops s = Inr s'" and "requests s < requests s'"
  shows "timers s' = (if flush s c then timers s else timers s @ [(c, i)]) \<and>
         filter (\<lambda>t. fst t = c) (timers s') = [(c, i)] \<and>
         filter is_pass (trace s') = filter is_pass (trace s) \<and>
         trace (run_timeouts s') = trace s' @ concat (map pass_of (timers s')) \<and>
         timers (run_timeouts s') = [] \<and> (\<forall>c'. \<not> flush (run_timeouts s') c') \<and>
         ((\<forall>t \<in> set (timers s). fst t = c) \<longrightarrow>
            trace (run_timeouts s') = trace s' @ [CalculateLayout i, OnRender i])"
proof -
  from perform_scheduler[OF assms(3,2)] assms(4)
  have p: "static_scheduleOutput s' = Some (c, i)"
      "filter is_pass (trace s') = filter is_pass (trace s)"
      "flush s' = (flush s)(c := True)"
      "timers s' = (if flush s c then timers s else timers s @ [(c, i)])"
    by auto
  from perform_running[OF assms(1,3)] have ok: "sched_ok s'" by (rule running_sched_ok)
  from p(3) have "flush s' c" by simp
  with ok p(1) have one: "filter (\<lambda>t. fst t = c) (timers s') = [(c, i)]" by (rule sched_ok_pending)
  have only: "trace (run_timeouts s') = trace s' @ [CalculateLayout i, OnRender i]"
    if "\<forall>t \<in> set (timers s). fst t = c"
  proof -
    from that p(4) have "\<forall>t \<in> set (timers s'). fst t = c" by (auto split: if_splits)
    then have "filter (\<lambda>t. fst t = c) (timers s') = timers s'" by (simp add: filter_id_conv)
    with one have "timers s' = [(c, i)]" by simp
    then show ?thesis by (simp add: run_timeouts_trace)
  qed
  from p(2,4) one only run_timeouts_trace[of s'] run_timeouts_flush[OF ok] show ?thesis
    by blast
qed

text \<open>
  After the first pass of the small tree, a new text and an attribute on the box give
  one more pass. After a second \<^verbatim>\<open>render\<close> on the same stream, the timeout of the first
  call is still pending beside that of the second: a new text sets no further timeout,
  one timeout of the second call is pending, and two passes follow. With a layout
  handle attached to the box after the first pass, a style assignment on the box gives
  one pass.
\<close>

theorem one_pass_per_burst_witness:
  "run_timeout example \<in> running \<and> timers (run_timeout example) = [] \<and>
   (\<exists>s'. perform 4 [SetData 13 ''bye'', SetAttribute 7 ''color'' (JString ''red'')] (run_timeout example)
           = Inr s' \<and>
      requests (run_timeout example) < requests s' \<and> timers s' = [(3, 2)] \<and>
      filter is_pass (trace s') = filter is_pass (trace (run_timeout example)) \<and>
      trace (run_timeouts s') = trace s' @ [CalculateLayout 2, OnRender 2] \<and>
      timers (run_timeouts s') = [] \<and> \<not> flush (run_timeouts s') 3) \<and>
   rendered_twice \<in> running \<and> timers rendered_twice = [(3, 2), (14, 2)] \<and>
   (\<exists>s'. perform 4 [SetData 13 ''bye''] rendered_twice = Inr s' \<and>
      requests rendered_twice < requests s' \<and> timers s' = [(3, 2), (14, 2)] \<and>
      filter (\<lambda>t. fst t = 14) (timers s') = [(14, 2)] \<and>
      trace (run_timeouts s') = trace s' @ [CalculateLayout 2, OnRender 2, CalculateLayout 2, OnRender 2] \<and>
      timers (run_timeouts s') = [] \<and> \<not> flush (run_timeouts s') 3 \<and> \<not> flush (run_timeouts s') 14) \<and>
   set_handle 5 (Some 100) (run_timeout example) \<in> running \<and>
   (\<exists>s'. perform 4 [StyleAssign 7 ''width'' (JString ''10px'')]
            (set_handle 5 (Some 100) (run_timeout example)) = Inr s' \<and>
      timers s' = [(3, 2)] \<and>
      trace (run_timeouts s') = trace s' @ [CalculateLayout 2, OnRender 2])"
proof -
  let ?s = "run_timeout example"
  have run: "?s \<in> running" using example_running by (rule running.timed_out)
  have b: "static_scheduleOutput ?s = Some (3, 2)" "timers ?s = []" "\<not> flush ?s 3"
    by (simp_all add: example_eq run_timeout_def)
  obtain s' where p: "perform 4 [SetData 13 ''bye'', SetAttribute 7 ''color'' (JString ''red'')] ?s = Inr s'"
      and q: "requests ?s < requests s'"
    by (simp add: example_eq run_timeout_def set_data_def setAttribute_def dom_setAttribute_def
        dom_setTextNodeValue_def upd_node_def wrapped_def blank_def scheduleOutput_def Let_def)
  from one_pass_per_burst[OF run b(1) p q] b(2,3)
  have a: "timers s' = [(3, 2)]" "filter is_pass (trace s') = filter is_pass (trace ?s)"
      "trace (run_timeouts s') = trace s' @ [CalculateLayout 2, OnRender 2]"
      "timers (run_timeouts s') = []" "\<not> flush (run_timeouts s') 3"
    by simp_all
  have b2: "static_scheduleOutput rendered_twice = Some (14, 2)"
      "timers rendered_twice = [(3, 2), (14, 2)]" "flush rendered_twice 14"
    by (simp_all add: rendered_twice_eq(2))
  obtain t' where p2: "perform 4 [SetData 13 ''bye''] rendered_twice = Inr t'"
      and q2: "requests rendered_twice < requests t'"
    by (simp add: rendered_twice_eq(2) set_data_def dom_setTextNodeValue_def upd_node_def wrapped_def
        blank_def scheduleOutput_def)
  from one_pass_per_burst[OF rendered_twice_running b2(1) p2 q2] b2(2,3)
  have a2: "timers t' = [(3, 2), (14, 2)]" "filter (\<lambda>t. fst t = 14) (timers t') = [(14, 2)]"
      "trace (run_timeouts t') = trace t' @ [CalculateLayout 2, OnRender 2, CalculateLayout 2, OnRender 2]"
      "timers (run_timeouts t') = []" "\<not> flush (run_timeouts t') 3" "\<not> flush (run_timeouts t') 14"
    by simp_all
  let ?u = "set_handle 5 (Some 100) ?s"
  have run3: "?u \<in> running" using run by (rule running.attached)
  have b3: "static_scheduleOutput ?u = Some (3, 2)" "timers ?u = []" "\<not> flush ?u 3"
    by (simp_all add: set_handle_def example_eq run_timeout_def)
  obtain u' where p3: "perform 4 [StyleAssign 7 ''width'' (JString ''10px'')] ?u = Inr u'"
      and q3: "requests ?u < requests u'"
    by (simp add: set_handle_def example_eq run_timeout_def style_defs upd_node_def)
  from one_pass_per_burst[OF run3 b3(1) p3 q3] b3(2,3)
  have a3: "timers u' = [(3, 2)]"
      "trace (run_timeouts u') = trace u' @ [CalculateLayout 2, OnRender 2]"
    by simp_all
  have first: "\<exists>s'. perform 4 [SetData 13 ''bye'', SetAttribute 7 ''color'' (JString ''red'')] ?s = Inr s' \<and>
      requests ?s < requests s' \<and> timers s' = [(3, 2)] \<and>
      filter is_pass (trace s') = filter is_pass (trace ?s) \<and>
      trace (run_timeouts s') = trace s' @ [CalculateLayout 2, OnRender 2] \<and>
      timers (run_timeouts s') = [] \<and> \<not> flush (run_timeouts s') 3"
    using p q a by blast
  have second: "\<exists>s'. perform 4 [SetData 13 ''bye''] rendered_twice = Inr s' \<and>
      requests rendered_twice < requests s' \<and> timers s' = [(3, 2), (14, 2)] \<and>
      filter (\<lambda>t. fst t = 14) (timers s') = [(14, 2)] \<and>
      trace (run_timeouts s') = trace s' @ [CalculateLayout 2, OnRender 2, CalculateLayout 2, OnRender 2] \<and>
      timers (run_timeouts s') = [] \<and> \<not> flush (run_timeouts s') 3 \<and> \<not> flush (run_timeouts s') 14"
    using p2 q2 a2 by blast
  have third: "\<exists>s'. perform 4 [StyleAssign 7 ''width'' (JString ''10px'')] ?u = Inr s' \<and>
      timers s' = [(3, 2)] \<and>
      trace (run_timeouts s') = trace s' @ [CalculateLayout 2, OnRender 2]"
    using p3 a3 by blast
  from run b(2) first b2(2) rendered_twice_running second run3 third show ?thesis by blast
qed

text \<open>
  C1 as stated fails in two ways. A style assignment on the adapter of the text node,
  which has no layout handle, is a mutation (the style object holds the number 10
  afterwards), but it sets no timeout, so no pass follows it. And after a second
  \<^verbatim>\<open>render\<close> on the same stream each of the two calls has set a timeout under its own
  flag, so a new text is followed by two passes of the session.
\<close>

theorem burst_with_no_pass_or_two:
  "is_mutation (StyleAssign 13 ''width'' (JString ''10px'')) \<and> timers laid_out = [] \<and>
   stored_style (perform 4 [StyleAssign 13 ''width'' (JString ''10px'')] laid_out) 12 ''width''
     = Some (Value (JNumber (Finite 10))) \<and>
   map_option timers (after (perform 4 [StyleAssign 13 ''width'' (JString ''10px'')] laid_out)) = Some [] \<and>
   map_option (trace \<circ> run_timeout) (after (perform 4 [StyleAssign 13 ''width'' (JString ''10px'')] laid_out))
     = Some (trace laid_out) \<and>
   is_mutation (SetData 13 ''bye'') \<and> timers rendered_twice = [(3, 2), (14, 2)] \<and>
   map_option (trace \<circ> run_timeout \<circ> run_timeout) (after (perform 4 [SetData 13 ''bye''] rendered_twice))
     = Some (trace rendered_twice @ [CalculateLayout 2, OnRender 2, CalculateLayout 2, OnRender 2]) \<and>
   map_option (timers \<circ> run_timeout \<circ> run_timeout) (after (perform 4 [SetData 13 ''bye''] rendered_twice))
     = Some []"
  by (simp add: laid_out_eq rendered_twice_eq(2) style_defs after_def run_timeout_def set_data_def
      dom_setTextNodeValue_def upd_node_def)

text \<open>
  C8. Two calls of \<^verbatim>\<open>render\<close> with the same resolved output stream, the second in the
  state the first left: the second call returns the same control handle, so its
  \<^verbatim>\<open>rerender\<close> is that of the session registered by the first call; it makes no session
  and leaves the registry as it was.
\<close>

theorem render_reuses_session:
  assumes "render k ops1 opts1 s = Inr (h1, s1)"
      and "render k' ops2 opts2 s1 = Inr (h2, s2)"
      and "inkOptions_stdout opts2 = inkOptions_stdout opts1"
  shows "h2 = h1 \<and> inks s2 = inks s1 \<and> instances s2 = instances s1 \<and>
         instances s1 (inkOptions_stdout opts1) = Some (rerender h1)"
proof -
  from render_registry[OF assms(1)]
  have a: "instances s1 (inkOptions_stdout opts1) = Some (rerender h1)"
      "h1 = \<lparr>rerender = rerender h1, unmount = rerender h1, waitUntilExit = rerender h1,
               cleanup = inkOptions_stdout opts1, clear = rerender h1\<rparr>"
    by simp_all
  from render_registry[OF assms(2)] assms(3) a(1)
  have b: "rerender h2 = rerender h1" "instances s2 = instances s1" "inks s2 = inks s1"
      "h2 = \<lparr>rerender = rerender h2, unmount = rerender h2, waitUntilExit = rerender h2,
               cleanup = inkOptions_stdout opts1, clear = rerender h2\<rparr>"
    by simp_all
  from a(2) b(1,4) have "h2 = h1" by simp
  with a(1) b(2,3) show ?thesis by simp
qed

text \<open>
  The small tree is rendered without options, then \<^verbatim>\<open>render\<close> is called with
  \<^verbatim>\<open>process.stdout\<close> given as the stream.
\<close>

theorem render_reuses_session_witness:
  "\<exists>h1 h2 s2. render 4 [CreateElementNS [] ''ink-box'', CreateElementNS [] ''ink-text'',
                         CreateTextNode ''hi'', AppendChild 10 13, AppendChild 7 10, AppendChild 4 7]
                NoOptions init = Inr (h1, example) \<and>
      render 0 [] (Stream 0) example = Inr (h2, s2) \<and>
      h2 = h1 \<and> rerender h1 = 2 \<and> inks s2 = inks example \<and> instances s2 = instances example"
proof -
  let ?h1 = "\<lparr>rerender = 2, unmount = 2, waitUntilExit = 2, cleanup = 0, clear = 2\<rparr>"
  have r1: "render 4 [CreateElementNS [] ''ink-box'', CreateElementNS [] ''ink-text'',
                         CreateTextNode ''hi'', AppendChild 10 13, AppendChild 7 10, AppendChild 4 7]
                NoOptions init = Inr (?h1, example)"
    using example_render_eq by (simp add: example_render_def)
  obtain h2 s2 where r2: "render 0 [] (Stream 0) example = Inr (h2, s2)"
    by (simp add: example_eq eval_defs)
  have o: "inkOptions_stdout (Stream 0) = inkOptions_stdout NoOptions"
    by (simp add: inkOptions_stdout_def process_stdout_def)
  from render_reuses_session[OF r1 r2 o] r1 r2 show ?thesis by auto
qed

text \<open>
  C9, as the code has it. There is one scheduler for all adapters, and \<^verbatim>\<open>render\<close> binds
  it to the flag of that call and to the session of that call. Let \<open>h\<close> be the handle
  that the most recent call of \<^verbatim>\<open>render\<close> returned, with any number of operations and
  deferred tasks since. An operation on any adapter, of whatever tree, leaves the
  scheduler bound to the session of \<open>h\<close>, runs no pass and calls \<^verbatim>\<open>scheduleOutput\<close> at
  most once. If it does not call it, the pending timeouts and all flags stay as they
  were. If it does, the flag of that call is set and every other flag stays as it was;
  a timeout for the session of \<open>h\<close> is added unless one of that call was pending;
  exactly one timeout of that call is pending afterwards; and if nothing was pending
  before, the next deferred task is the layout and paint of the session of \<open>h\<close>.
\<close>

theorem one_scheduler_for_all_adapters:
  assumes "latest h s" and "apply_op k x s = Inr s'"
  shows "\<exists>c. static_scheduleOutput s = Some (c, rerender h) \<and>
              static_scheduleOutput s' = Some (c, rerender h) \<and>
              filter is_pass (trace s') = filter is_pass (trace s) \<and>
              (requests s' = requests s \<or> requests s' = requests s + 1) \<and>
              (requests s' = requests s \<longrightarrow> timers s' = timers s \<and> flush s' = flush s) \<and>
              (requests s' = requests s + 1 \<longrightarrow>
                 flush s' = (flush s)(c := True) \<and>
                 timers s' = (if flush s c then timers s else timers s @ [(c, rerender h)]) \<and>
                 filter (\<lambda>t. fst t = c) (timers s') = [(c, rerender h)] \<and>
                 (timers s = [] \<longrightarrow>
                    trace (run_timeout s') = trace s' @ [CalculateLayout (rerender h), OnRender (rerender h)]))"
proof -
  let ?i = "rerender h"
  from latest_scheduler[OF assms(1)] obtain c where c: "static_scheduleOutput s = Some (c, ?i)"
    by blast
  from apply_op_scheduler[OF assms(2) c]
  have a: "static_scheduleOutput s' = Some (c, ?i)"
      "filter is_pass (trace s') = filter is_pass (trace s)"
      "requests s' = requests s \<and> timers s' = timers s \<and> flush s' = flush s \<or>
       requests s' = requests s + 1 \<and> flush s' = (flush s)(c := True) \<and>
       timers s' = (if flush s c then timers s else timers s @ [(c, ?i)])"
    by blast+
  from latest_running[OF assms(1)] have run: "s \<in> running" .
  from running.stepped[OF run assms(2)] have ok': "sched_ok s'" by (rule running_sched_ok)
  from running_sched_ok[OF run] have ok: "sched_ok s" .
  have asked: "flush s' = (flush s)(c := True) \<and>
         timers s' = (if flush s c then timers s else timers s @ [(c, ?i)]) \<and>
         filter (\<lambda>t. fst t = c) (timers s') = [(c, ?i)] \<and>
         (timers s = [] \<longrightarrow> trace (run_timeout s') = trace s' @ [CalculateLayout ?i, OnRender ?i])"
    if rq: "requests s' = requests s + 1"
  proof -
    from a(3) rq have f: "flush s' = (flush s)(c := True)"
        and t: "timers s' = (if flush s c then timers s else timers s @ [(c, ?i)])"
      by auto
    from f have "flush s' c" by simp
    with ok' a(1) have one: "filter (\<lambda>t. fst t = c) (timers s') = [(c, ?i)]" by (rule sched_ok_pending)
    have "trace (run_timeout s') = trace s' @ [CalculateLayout ?i, OnRender ?i]" if e: "timers s = []"
    proof -
      from t e have "set (timers s') \<subseteq> {(c, ?i)}" by (auto split: if_splits)
      then have "filter (\<lambda>t. fst t = c) (timers s') = timers s'" by (auto simp: filter_id_conv)
      with one have "timers s' = [(c, ?i)]" by simp
      then show ?thesis by (simp add: run_timeout_def)
    qed
    with f t one show ?thesis by blast
  qed
  have same: "timers s' = timers s \<and> flush s' = flush s" if "requests s' = requests s"
    using a(3) that by auto
  from a(3) have "requests s' = requests s \<or> requests s' = requests s + 1" by blast
  with c a(1,2) asked same show ?thesis
    by (intro exI[of _ c]) blast
qed

text \<open>
  With both sessions idle after their deferred tasks, a new text through the adapter
  13: the handle of the latest call is that of session 16, the operation sets the one
  timeout of that call, whose task is the pass of session 16, and the flag of the first
  call (3) is not touched.
\<close>

theorem one_scheduler_for_all_adapters_witness:
  "\<exists>h s'. latest h two_sessions \<and> rerender h = 16 \<and> timers two_sessions = [] \<and>
      apply_op 4 (SetData 13 ''bye'') two_sessions = Inr s' \<and>
      requests s' = requests two_sessions + 1 \<and> timers s' = [(17, 16)] \<and>
      trace (run_timeout s') = trace s' @ [CalculateLayout 16, OnRender 16] \<and>
      flush s' 3 = flush two_sessions 3"
proof -
  let ?h = "\<lparr>rerender = 16, unmount = 16, waitUntilExit = 16, cleanup = 1, clear = 16\<rparr>"
  have run: "run_timeout example \<in> running" using example_running by (rule running.timed_out)
  define s1 where "s1 = snd (projr (render 4 [] (Stream 1) (run_timeout example)))"
  have r: "render 4 [] (Stream 1) (run_timeout example) = Inr (?h, s1)"
    unfolding s1_def second_render_eq by simp
  have t: "two_sessions = run_timeout s1"
    unfolding s1_def two_sessions_def second_render_eq by simp
  from latest.returned[OF run r] have "latest ?h s1" .
  then have l: "latest ?h two_sessions" unfolding t by (rule latest.then_timed_out)
  have b: "static_scheduleOutput two_sessions = Some (17, 16)" "timers two_sessions = []"
      "\<not> flush two_sessions 17"
    by (simp_all add: two_sessions_eq)
  obtain s' where a: "apply_op 4 (SetData 13 ''bye'') two_sessions = Inr s'"
      and q: "requests s' = requests two_sessions + 1"
    by (simp add: two_sessions_eq set_data_def dom_setTextNodeValue_def upd_node_def wrapped_def
        blank_def scheduleOutput_def)
  from one_scheduler_for_all_adapters[OF l a] b q
  have "timers s' = [(17, 16)]"
      "trace (run_timeout s') = trace s' @ [CalculateLayout 16, OnRender 16]"
      "flush s' 3 = flush two_sessions 3"
    by auto
  with l a q b(2) show ?thesis by (intro exI[of _ ?h] exI[of _ s']) simp
qed

text \<open>
  C9 as stated fails: with the session 2 on \<^verbatim>\<open>process.stdout\<close> and the session 16 on the
  stream 1, both idle, a new text through the adapter 13, which is in the tree of
  session 2, sets a timeout for session 16, and the pass that follows is the layout and
  paint of session 16.
\<close>

theorem mutation_schedules_the_latest_session:
  "instances two_sessions 0 = Some 2 \<and> map_option rootNode (inks two_sessions 2) = Some 0 \<and>
   contains 4 4 (Some 13) two_sessions = Inr True \<and>
   instances two_sessions 1 = Some 16 \<and> timers two_sessions = [] \<and>
   map_option timers (after (set_data 13 ''bye'' two_sessions)) = Some [(17, 16)] \<and>
   map_option (trace \<circ> run_timeout) (after (set_data 13 ''bye'' two_sessions))
     = Some (trace two_sessions @ [CalculateLayout 16, OnRender 16])"
  by (simp add: two_sessions_eq after_def set_data_def wrapped_def blank_def scheduleOutput_def
      dom_setTextNodeValue_def upd_node_def run_timeout_def contains_def isContainer_def
      eval_nat_numeral)

text \<open>
  C6, as the code has it. Let the adapter wrap a container and let the subtree of the
  child be well formed. Then \<^verbatim>\<open>removeChild\<close> returns; the child is taken out of the
  parent's child list and has no parent; and \<^verbatim>\<open>scheduleOutput\<close> is called once. If the
  child itself has no layout handle, nothing is released, whatever is under it. If it
  has one, the handles released are those of the nodes reachable from the child, as
  many as the subtree contains, each as often as a node of the subtree holds it; and
  none is released twice if no node occurs twice under the child and no two nodes hold
  the same handle. (The release itself belongs to the layout engine and is taken from
  the spec: it frees every handle under the subtree.)
\<close>

theorem removeChild_releases_subtree:
  assumes w: "wrapped e s = Some (el, nd)" and cont: "isContainer nd"
      and ce: "elements s ce = Some cel" and cn: "nodes s (node cel) = Some cnd"
      and ok: "tree_ok k (nodes s) (node cel)"
  shows "\<exists>s' hs pn cn'. removeChild k e ce s = Inr s' \<and>
           nodes s' (node el) = Some pn \<and> childNodes pn = remove1 (node cel) (childNodes nd) \<and>
           nodes s' (node cel) = Some cn' \<and> parentNode cn' = None \<and>
           trace s' = trace s @ map FreeHandle hs \<and>
           (yogaNode cnd = None \<longrightarrow> hs = []) \<and>
           (yogaNode cnd \<noteq> None \<longrightarrow>
              length hs = length (handles_under k (nodes s) (node cel)) \<and>
              set hs = owned_under (nodes s) (node cel) \<and>
              (\<forall>y. count_list hs y = count_list (handles_under k (nodes s) (node cel)) y) \<and>
              (exclusive k (nodes s) (node cel) \<longrightarrow> distinct hs)) \<and>
           requests s' = requests s + 1 \<and>
           timers s' = timers (scheduleOutput s) \<and> flush s' = flush (scheduleOutput s)"
proof -
  let ?p = "node el" and ?c = "node cel"
  let ?hu = "handles_under k (nodes s) ?c"
  from w have el: "elements s e = Some el" and nd: "nodes s ?p = Some nd"
    by (auto simp: wrapped_def split: option.splits)
  define s1 where "s1 = dom_removeChildNode ?p ?c s"
  have s1p: "\<exists>pn. nodes s1 ?p = Some pn \<and> childNodes pn = remove1 ?c (childNodes nd)"
    using nd by (auto simp: s1_def nodes_dom_removeChildNode)
  have s1c: "\<exists>cn'. nodes s1 ?c = Some cn' \<and> parentNode cn' = None \<and> yogaNode cn' = yogaNode cnd"
    using cn by (auto simp: s1_def nodes_dom_removeChildNode)
  have "\<forall>m \<in> reach (nodes s) ?c. release_view (nodes s1) m = release_view (nodes s) m"
    unfolding s1_def using release_view_after_detach[OF ok] by blast
  then have fr: "freeRecursive k (nodes s1) ?c = freeRecursive k (nodes s) ?c"
    by (rule freeRecursive_cong)
  from freeRecursive_handles[OF ok] obtain hs0 where hs0: "freeRecursive k (nodes s) ?c = Some hs0"
      "length hs0 = length ?hu" "set hs0 = set ?hu"
    by blast
  from freeRecursive_count[OF ok] hs0(1) have cnt0: "\<forall>y. count_list hs0 y = count_list ?hu y"
    by simp
  define hs where "hs = (if yogaNode cnd = None then [] else hs0)"
  define s2 where "s2 = s1\<lparr>trace := trace s1 @ map FreeHandle hs\<rparr>"
  from s1c obtain cn' where cn': "nodes s1 ?c = Some cn'" "parentNode cn' = None" "yogaNode cn' = yogaNode cnd"
    by blast
  have rel: "release k ?c s1 = Inr s2"
    using cn' fr hs0(1) by (auto simp: release_def s2_def hs_def)
  define s' where "s' = scheduleOutput s2"
  from w cont ce rel have res: "removeChild k e ce s = Inr s'"
    by (simp add: removeChild_def s1_def s'_def)
  have n': "nodes s' = nodes s1" by (simp add: s'_def s2_def)
  have tr: "trace s' = trace s @ map FreeHandle hs" by (simp add: s'_def s2_def s1_def)
  have rq: "requests s' = requests s + 1" by (simp add: s'_def s2_def s1_def)
  have sch: "timers s' = timers (scheduleOutput s)" "flush s' = flush (scheduleOutput s)"
    unfolding s'_def by (rule scheduleOutput_same; simp add: s2_def s1_def)+
  have none: "yogaNode cnd = None \<longrightarrow> hs = []" by (simp add: hs_def)
  have some: "yogaNode cnd \<noteq> None \<longrightarrow>
              length hs = length ?hu \<and> set hs = owned_under (nodes s) ?c \<and>
              (\<forall>y. count_list hs y = count_list ?hu y) \<and>
              (exclusive k (nodes s) ?c \<longrightarrow> distinct hs)"
  proof
    assume "yogaNode cnd \<noteq> None"
    then have hs: "hs = hs0" by (cases "yogaNode cnd") (simp_all add: hs_def)
    have dist: "distinct hs" if "exclusive k (nodes s) ?c"
    proof -
      from that have "distinct ?hu" by (rule exclusive_distinct)
      then have "card (set ?hu) = length ?hu" by (rule distinct_card)
      with hs0 hs have "card (set hs) = length hs" by simp
      then show ?thesis by (rule card_distinct)
    qed
    from hs hs0 cnt0 handles_under_owned[OF ok] dist
    show "length hs = length ?hu \<and> set hs = owned_under (nodes s) ?c \<and>
              (\<forall>y. count_list hs y = count_list ?hu y) \<and>
              (exclusive k (nodes s) ?c \<longrightarrow> distinct hs)"
      by simp
  qed
  from s1p obtain pn where pn: "nodes s1 ?p = Some pn" "childNodes pn = remove1 ?c (childNodes nd)"
    by blast
  show ?thesis
    apply (rule exI[of _ s'])
    apply (rule exI[of _ hs])
    apply (rule exI[of _ pn])
    apply (rule exI[of _ cn'])
    apply (intro conjI)
    apply (simp_all add: res n' pn cn' tr rq sch none)
    using some apply blast
    done
qed

text \<open>
  Removing the box from the root releases the handle of the text element and then the
  handle of the box, two handles for the two that the subtree contains; removing the
  text node, which has no handle and nothing under it, releases nothing.
\<close>

theorem removeChild_releases_subtree_witness:
  "handles_under 4 (nodes with_handles) 5 = [100, 101] \<and>
   exclusive 4 (nodes with_handles) 5 \<and>
   trace_of (removeChild 4 4 7 with_handles) = Some (trace with_handles @ [FreeHandle 101, FreeHandle 100]) \<and>
   (\<exists>s' hs pn cn'. removeChild 4 4 7 with_handles = Inr s' \<and>
      nodes s' 0 = Some pn \<and> childNodes pn = [] \<and> nodes s' 5 = Some cn' \<and> parentNode cn' = None \<and>
      trace s' = trace with_handles @ map FreeHandle hs \<and> length hs = 2 \<and> distinct hs \<and>
      set hs = owned_under (nodes with_handles) 5 \<and> requests s' = 5 \<and> timers s' = [(3, 2)]) \<and>
   handles_under 4 (nodes with_handles) 11 = [] \<and>
   (\<exists>s'. removeChild 4 10 13 with_handles = Inr s' \<and> trace s' = trace with_handles)"
proof -
  have w: "wrapped 4 with_handles =
      Some (\<lparr>node = 0, nodeType = Some 4, style_proxy = None\<rparr>, blank ''ink-root'' None [5] 1 [])"
    and w': "wrapped 10 with_handles =
      Some (\<lparr>node = 8, nodeType = Some 1, style_proxy = None\<rparr>,
            (blank ''ink-text'' (Some 5) [11] 9 [])\<lparr>yogaNode := Some 101\<rparr>)"
    by (simp_all add: with_handles_eq wrapped_def)
  have c: "isContainer (blank ''ink-root'' None [5] 1 [])"
      "isContainer ((blank ''ink-text'' (Some 5) [11] 9 [])\<lparr>yogaNode := Some 101\<rparr>)"
    by (simp_all add: isContainer_def blank_def)
  have e: "elements with_handles 7 = Some \<lparr>node = 5, nodeType = Some 3, style_proxy = None\<rparr>"
      "elements with_handles 13 = Some \<lparr>node = 11, nodeType = Some 1, style_proxy = None\<rparr>"
    by (simp_all add: with_handles_eq)
  have n: "nodes with_handles (node \<lparr>node = 5, nodeType = Some 3, style_proxy = None\<rparr>)
         = Some ((blank ''ink-box'' (Some 0) [8] 6 [])\<lparr>yogaNode := Some 100\<rparr>)"
      "nodes with_handles (node \<lparr>node = 11, nodeType = Some 1, style_proxy = None\<rparr>)
         = Some (blank ''#text'' (Some 8) [] 12 ''hi'')"
    by (simp_all add: with_handles_eq)
  have hu: "handles_under 4 (nodes with_handles) 5 = [100, 101]"
      "handles_under 4 (nodes with_handles) 11 = []"
    by (simp_all add: with_handles_eq blank_def eval_nat_numeral)
  have ok: "tree_ok 4 (nodes with_handles) (node \<lparr>node = 5, nodeType = Some 3, style_proxy = None\<rparr>)"
      "tree_ok 4 (nodes with_handles) (node \<lparr>node = 11, nodeType = Some 1, style_proxy = None\<rparr>)"
    by (simp_all add: with_handles_eq blank_def eval_nat_numeral)
  have ex: "exclusive 4 (nodes with_handles) 5"
    by (simp add: exclusive_def handle_of_def with_handles_eq blank_def eval_nat_numeral)
  have y: "yogaNode ((blank ''ink-box'' (Some 0) [8] 6 [])\<lparr>yogaNode := Some 100\<rparr>) \<noteq> None"
      "yogaNode (blank ''#text'' (Some 8) [] 12 ''hi'') = None"
    by (simp_all add: blank_def)
  have sch: "timers (scheduleOutput with_handles) = [(3, 2)]" "requests with_handles = 4"
    by (simp_all add: with_handles_eq scheduleOutput_def)
  have tr: "trace_of (removeChild 4 4 7 with_handles)
      = Some (trace with_handles @ [FreeHandle 101, FreeHandle 100])"
    by (simp add: with_handles_eq trace_of_def removeChild_def release_def wrapped_def isContainer_def
        dom_removeChildNode_def upd_node_def blank_def eval_nat_numeral)
  from removeChild_releases_subtree[OF w c(1) e(1) n(1) ok(1)] hu sch y(1) ex
  have a: "\<exists>s' hs pn cn'. removeChild 4 4 7 with_handles = Inr s' \<and>
      nodes s' 0 = Some pn \<and> childNodes pn = [] \<and> nodes s' 5 = Some cn' \<and> parentNode cn' = None \<and>
      trace s' = trace with_handles @ map FreeHandle hs \<and> length hs = 2 \<and> distinct hs \<and>
      set hs = owned_under (nodes with_handles) 5 \<and> requests s' = 5 \<and> timers s' = [(3, 2)]"
    by (elim exE conjE) (auto simp: blank_def)
  from removeChild_releases_subtree[OF w' c(2) e(2) n(2) ok(2)] y(2)
  have b: "\<exists>s'. removeChild 4 10 13 with_handles = Inr s' \<and> trace s' = trace with_handles"
    by (elim exE conjE) auto
  from hu ex tr a b show ?thesis by blast
qed

text \<open>
  C6 as stated fails: with the handle 101 on the text element and none on the box, the
  subtree of the box contains one handle, and removing the box from the root releases
  nothing, since the release is guarded by the handle of the removed node itself. And
  nothing keeps a second removal of the same child from releasing again: removing the
  box, with its two handles, twice releases both handles twice.
\<close>

theorem removeChild_skips_subtree_without_own_handle:
  "handles_under 4 (nodes headless) 5 = [101] \<and>
   tree_ok 4 (nodes headless) 5 \<and>
   map_option isContainer (nodes headless 0) = Some True \<and>
   trace_of (removeChild 4 4 7 headless) = Some (trace headless) \<and>
   trace_of (perform 4 [RemoveChild 4 7, RemoveChild 4 7] with_handles)
     = Some (trace with_handles @ [FreeHandle 101, FreeHandle 100, FreeHandle 101, FreeHandle 100])"
  by (simp add: headless_eq with_handles_eq trace_of_def removeChild_def release_def wrapped_def
      isContainer_def dom_removeChildNode_def upd_node_def blank_def scheduleOutput_def eval_nat_numeral)

text \<open>
  C10, as the code has it. At every point of an execution, a node that is not the root
  node of a session has at most one adapter, and that adapter is the one the side table
  holds for the node.
\<close>

theorem one_adapter_per_created_node:
  assumes "s \<in> reachable" and "elements s e1 = Some el1" and "elements s e2 = Some el2"
      and "node el1 = node el2" and "\<not> is_root s (node el1)"
  shows "e1 = e2 \<and> domNode2PreactElement s (node el1) = Some e1"
proof -
  from assms(1) have r: "registered s" by (rule reachable_registered)
  from r assms(2,5) have "domNode2PreactElement s (node el1) = Some e1"
    unfolding registered_def by metis
  moreover from r assms(3,4,5) have "domNode2PreactElement s (node el1) = Some e2"
    unfolding registered_def by metis
  ultimately show ?thesis by simp
qed

text \<open>In the small tree, for the box (node 5) and its adapter 7.\<close>

theorem one_adapter_per_created_node_witness:
  "example \<in> reachable \<and> \<not> is_root example 5 \<and> domNode2PreactElement example 5 = Some 7"
proof -
  have "init \<in> reachable" by (rule reachable.start)
  then have r: "example \<in> reachable"
    using example_render_eq unfolding example_render_def by (rule reachable.rendered)
  have e: "elements example 7 = Some \<lparr>node = 5, nodeType = Some 3, style_proxy = None\<rparr>"
    by (simp add: example_eq)
  have n: "\<not> is_root example (node \<lparr>node = 5, nodeType = Some 3, style_proxy = None\<rparr>)"
    by (simp add: is_root_def example_eq)
  from one_adapter_per_created_node[OF r e e _ n] r n show ?thesis by simp
qed

text \<open>
  C10 as stated fails: after a second \<^verbatim>\<open>render\<close> on the same stream, the adapters 4 and
  15 both wrap the root node 0 of the session, and the side table holds neither.
\<close>

theorem render_wraps_the_root_again:
  "rendered_twice \<in> reachable \<and>
   map_option node (elements rendered_twice 4) = Some 0 \<and>
   map_option node (elements rendered_twice 15) = Some 0 \<and>
   map_option rootNode (inks rendered_twice 2) = Some 0 \<and>
   domNode2PreactElement rendered_twice 0 = None"
proof -
  have "init \<in> reachable" by (rule reachable.start)
  then have r: "example \<in> reachable"
    using example_render_eq unfolding example_render_def by (rule reachable.rendered)
  obtain h2 s2 where r2: "render 0 [] (Stream 0) example = Inr (h2, s2)"
    by (simp add: example_eq eval_defs)
  then have "rendered_twice = s2" by (simp add: rendered_twice_def)
  with reachable.rendered[OF r r2] have "rendered_twice \<in> reachable" by simp
  then show ?thesis
    by (simp add: rendered_twice_def example_eq eval_defs)
qed

end
